theory Spec2Isabelle
  imports Main "HOL-Library.Word"
begin

unbundle bit_operations_syntax

section \<open>Data model of the Modular sub-coder (jxl/modular/encoding/encoding.cc)\<close>

text \<open>
  The closed predictor enumeration. The source names \<open>Zero\<close>, \<open>Gradient\<close>,
  \<open>Weighted\<close>, \<open>Best\<close> and \<open>Variable\<close>; the remaining members are the ones the
  specification lists. \<open>Unset\<close> is \<open>static_cast<Predictor>(-1)\<close>, \<open>Other i\<close> any
  further member \<open>static_cast<Predictor>(i)\<close>.
\<close>

datatype Predictor =
  Zero | Left | Top | Average | Select | Gradient | Weighted | Best | Variable
  | Unset | Other nat

text \<open>
  The fields a leaf carries, shared by the node of the authoring tree and the node of the
  flat tree. The widths of the fields are declared in \<open>ma.h\<close>, outside these sources;
  they are kept as mathematical integers here.
\<close>

record LeafFields =
  predictor :: Predictor
  predictor_offset :: int
  multiplier :: int

record PropertyDecisionNode = LeafFields +
  splitval :: int
  property :: int
  lchild :: nat
  rchild :: nat

type_synonym Tree = "PropertyDecisionNode list"

record FlatDecisionNode = LeafFields +
  property0 :: int
  splitval0 :: int
  properties :: "int \<times> int"
  splitvals :: "int \<times> int"
  childID :: nat

type_synonym FlatTree = "FlatDecisionNode list"

record Channel =
  w :: nat
  h :: nat

record Image =
  channel :: "Channel list"
  image_w :: nat
  image_h :: nat
  nb_meta_channels :: nat
  error :: bool

record ModularOptions =
  skipchannels :: nat
  max_chan_size :: nat
  opt_predictor :: Predictor
  force_no_wp :: bool
  force_wp_only :: bool

text \<open>
  \<open>kWPPropRange\<close> is defined in the source file itself. \<open>kNumStaticProperties\<close> is
  declared outside it.
\<close>

definition kWPPropRange :: int where
  "kWPPropRange = 512"

text \<open>
  Modelled from the spec: \<open>kNumStaticProperties\<close> (declared in \<open>context_predict.h\<close>,
  which is not among the sources). The static properties are the channel index and the
  group id, and the source initialises the array of static properties with exactly these
  two values.
\<close>

definition kNumStaticProperties :: nat where
  "kNumStaticProperties = 2"

text \<open>
  The constants of the property layout that the source takes from
  \<open>context_predict.h\<close> (not among the sources) are parameters of the model.
  \<open>kWPProp\<close> is defined in the source file from them.
\<close>

record PropertyLayout =
  kNumNonrefProperties :: nat
  weighted_kNumProperties :: nat
  kExtraPropsPerChannel :: nat

definition kWPProp :: "PropertyLayout \<Rightarrow> nat" where
  "kWPProp L = kNumNonrefProperties L - weighted_kNumProperties L"

section \<open>Channel iteration of ModularEncode and ModularDecode\<close>

text \<open>
  The encoder's loop over the channels (ModularEncode, the loop that calls
  \<open>EncodeModularChannelMAANS\<close>), as the list of the indices the call is made for:
  \<open>continue\<close> on an empty channel, \<open>break\<close> on a channel past the meta channels that
  is larger than \<open>max_chan_size\<close>. The image is \<open>const\<close> in the encoder, and the
  decoder's per-channel call keeps \<open>w\<close> and \<open>h\<close> (it resizes the channel to its own
  dimensions), so the dimensions are those of the image at loop entry.
\<close>

function encode_channels_from :: "Image \<Rightarrow> ModularOptions \<Rightarrow> nat \<Rightarrow> nat list" where
  "encode_channels_from img opts i =
     (if i < length (channel img) then
        (if w (channel img ! i) = 0 \<or> h (channel img ! i) = 0 then
           encode_channels_from img opts (i + 1)
         else if nb_meta_channels img \<le> i \<and>
                 (max_chan_size opts < w (channel img ! i) \<or>
                  max_chan_size opts < h (channel img ! i)) then []
         else i # encode_channels_from img opts (i + 1))
      else [])"
  by pat_completeness auto
termination
  by (relation "measure (\<lambda>(img, opts, i). length (channel img) - i)") auto

declare encode_channels_from.simps [simp del]

definition encode_channels :: "Image \<Rightarrow> ModularOptions \<Rightarrow> nat list" where
  "encode_channels img opts = encode_channels_from img opts (skipchannels opts)"

text \<open>
  The decoder's loop (ModularDecode, the loop that calls \<open>DecodeModularChannelMAANS\<close>),
  written from the decoder's text: it binds the channel first and tests it afterwards.
\<close>

function decode_channels_from :: "Image \<Rightarrow> ModularOptions \<Rightarrow> nat \<Rightarrow> nat list" where
  "decode_channels_from img opts i =
     (if i < length (channel img) then
        (let c = channel img ! i in
         if w c = 0 \<or> h c = 0 then decode_channels_from img opts (i + 1)
         else if nb_meta_channels img \<le> i \<and>
                 (max_chan_size opts < w c \<or> max_chan_size opts < h c) then []
         else i # decode_channels_from img opts (i + 1))
      else [])"
  by pat_completeness auto
termination
  by (relation "measure (\<lambda>(img, opts, i). length (channel img) - i)") auto

declare decode_channels_from.simps [simp del]

definition decode_channels :: "Image \<Rightarrow> ModularOptions \<Rightarrow> nat list" where
  "decode_channels img opts = decode_channels_from img opts (skipchannels opts)"

text \<open>The decoder's first loop, which counts \<open>num_chans\<close> with the same tests.\<close>

function decode_num_chans_from :: "Image \<Rightarrow> ModularOptions \<Rightarrow> nat \<Rightarrow> nat \<Rightarrow> nat" where
  "decode_num_chans_from img opts i num_chans =
     (if i < length (channel img) then
        (if w (channel img ! i) = 0 \<or> h (channel img ! i) = 0 then
           decode_num_chans_from img opts (i + 1) num_chans
         else if nb_meta_channels img \<le> i \<and>
                 (max_chan_size opts < w (channel img ! i) \<or>
                  max_chan_size opts < h (channel img ! i)) then num_chans
         else decode_num_chans_from img opts (i + 1) (num_chans + 1))
      else num_chans)"
  by pat_completeness auto
termination
  by (relation "measure (\<lambda>(img, opts, i, n). length (channel img) - i)") auto

declare decode_num_chans_from.simps [simp del]

text \<open>
  The channel selection rule in the words of the specification: walk the indices from
  \<open>skipchannels\<close> upward, skip the empty channels, and stop at the first channel that is
  looked at (an empty one is skipped before its size is looked at) whose index is past
  the meta channels and whose width or height exceeds \<open>max_chan_size\<close>.
\<close>

definition empty_channel :: "Image \<Rightarrow> nat \<Rightarrow> bool" where
  "empty_channel img i = (w (channel img ! i) = 0 \<or> h (channel img ! i) = 0)"

definition stops_iteration :: "Image \<Rightarrow> ModularOptions \<Rightarrow> nat \<Rightarrow> bool" where
  "stops_iteration img opts i =
     (\<not> empty_channel img i \<and> nb_meta_channels img \<le> i \<and>
      (max_chan_size opts < w (channel img ! i) \<or>
       max_chan_size opts < h (channel img ! i)))"

definition coded_channels :: "Image \<Rightarrow> ModularOptions \<Rightarrow> nat list" where
  "coded_channels img opts =
     filter (\<lambda>i. \<not> empty_channel img i)
       (takeWhile (\<lambda>i. \<not> stops_iteration img opts i)
          [skipchannels opts ..< length (channel img)])"

text \<open>
  An image to run the loops on: an empty channel that is taller than \<open>max_chan_size\<close>,
  a small channel, a channel that is too wide, and a small channel behind it.
\<close>

definition example_image :: Image where
  "example_image =
     \<lparr>channel = [\<lparr>w = 0, h = 1000\<rparr>, \<lparr>w = 4, h = 4\<rparr>, \<lparr>w = 600, h = 2\<rparr>, \<lparr>w = 3, h = 3\<rparr>],
      image_w = 4, image_h = 4, nb_meta_channels = 0, error = False\<rparr>"

definition example_options :: ModularOptions where
  "example_options =
     \<lparr>skipchannels = 0, max_chan_size = 512, opt_predictor = Zero,
      force_no_wp = False, force_wp_only = False\<rparr>"

section \<open>Entry checks of ModularEncode and ModularGenericCompress\<close>

text \<open>
  A \<open>Status\<close> is success or a failure carrying the message of \<open>JXL_FAILURE\<close>.
  Everything the encoder produces (the bits written, the tokens, the gathered samples,
  the header, the width) is one value \<open>enc\<close> that is passed through.
\<close>

datatype Status = StatusOk | Failure string

text \<open>
  ModularEncode. The part after the two entry checks drives the header bundle, the tree
  learner, the histogram builder and the token writer, which are not among the sources;
  it is the parameter \<open>encode_body\<close>. (Between the two checks the source only
  computes \<open>bit_depth\<close> for a debug message.)
\<close>

definition ModularEncode ::
  "(Image \<Rightarrow> ModularOptions \<Rightarrow> 'e \<Rightarrow> Status \<times> 'e) \<Rightarrow>
   Image \<Rightarrow> ModularOptions \<Rightarrow> 'e \<Rightarrow> Status \<times> 'e" where
  "ModularEncode encode_body img opts enc =
     (if error img then (Failure ''Invalid image'', enc)
      else if length (channel img) < 1 then (StatusOk, enc)
      else encode_body img opts enc)"

text \<open>
  ModularGenericCompress: returns \<open>true\<close> at once for an image without width or
  height, replaces an unset predictor by \<open>Gradient\<close>, and passes a failure of
  ModularEncode on (\<open>JXL_RETURN_IF_ERROR\<close>).
\<close>

definition ModularGenericCompress ::
  "(Image \<Rightarrow> ModularOptions \<Rightarrow> 'e \<Rightarrow> Status \<times> 'e) \<Rightarrow>
   Image \<Rightarrow> ModularOptions \<Rightarrow> 'e \<Rightarrow> Status \<times> 'e" where
  "ModularGenericCompress encode_body img opts enc =
     (if image_w img = 0 \<or> image_h img = 0 then (StatusOk, enc)
      else
        (let options = (if opt_predictor opts = Unset
                        then opts\<lparr>opt_predictor := Gradient\<rparr> else opts)
         in case ModularEncode encode_body img options enc of
              (Failure msg, enc') \<Rightarrow> (Failure msg, enc')
            | (StatusOk, enc') \<Rightarrow> (StatusOk, enc')))"

text \<open>
  Two images for the entry checks: one without width, and one with its error flag set;
  and a stand-in for the rest of the encoder that appends one item to what was encoded.
\<close>

definition zero_width_image :: Image where
  "zero_width_image =
     \<lparr>channel = [\<lparr>w = 0, h = 4\<rparr>], image_w = 0, image_h = 4,
      nb_meta_channels = 0, error = False\<rparr>"

definition flagged_image :: Image where
  "flagged_image =
     \<lparr>channel = [\<lparr>w = 4, h = 4\<rparr>], image_w = 4, image_h = 4,
      nb_meta_channels = 0, error = True\<rparr>"

definition encode_one_item :: "Image \<Rightarrow> ModularOptions \<Rightarrow> nat list \<Rightarrow> Status \<times> nat list" where
  "encode_one_item img opts enc = (StatusOk, enc @ [length (channel img)])"

section \<open>LearnTree without samples\<close>

text \<open>
  Modelled from the spec: \<open>PackSigned\<close> (declared outside the sources), the zig-zag
  folding \<open>(x < 0) ? (-2*x - 1) : (2*x)\<close>.
\<close>

definition PackSigned :: "int \<Rightarrow> nat" where
  "PackSigned x = (if x < 0 then nat (- 2 * x - 1) else nat (2 * x))"

text \<open>
  Modelled from the spec: the node that \<open>tree.emplace_back()\<close> constructs
  (the constructor of \<open>PropertyDecisionNode\<close> is declared in \<open>ma.h\<close>, not among the
  sources). LearnTree assigns \<open>predictor\<close>, \<open>property\<close>, \<open>predictor_offset\<close> and
  \<open>multiplier\<close> afterwards; the other fields keep what the constructor gave them.
\<close>

definition default_node :: PropertyDecisionNode where
  "default_node =
     \<lparr>predictor = Zero, predictor_offset = 0, multiplier = 1,
      splitval = 0, property = - 1, lchild = 0, rchild = 0\<rparr>"

text \<open>The cost of a residual column: the sum of the packed residuals.\<close>

definition column_cost :: "int list \<Rightarrow> nat" where
  "column_cost col = sum_list (map PackSigned col)"

text \<open>
  The loop that chooses the base predictor: \<open>(base_pred, base_pred_cost)\<close> after the
  candidates \<open>0 ..< n\<close>.
\<close>

definition choose_base_pred :: "int list list \<Rightarrow> nat \<Rightarrow> nat \<times> nat" where
  "choose_base_pred residuals n =
     fold (\<lambda>i (base_pred, base_pred_cost).
             let cost = column_cost (residuals ! i)
             in if cost < base_pred_cost \<or> i = 0 then (i, cost)
                else (base_pred, base_pred_cost))
          [0 ..< n] (0, 0)"

definition swap_at :: "'a list \<Rightarrow> nat \<Rightarrow> nat \<Rightarrow> 'a list" where
  "swap_at xs i j = xs[i := xs ! j, j := xs ! i]"

text \<open>
  The two steps between the test for missing samples and the tree builder. With
  \<open>force_wp_only\<close> the values of the WP property are clamped to
  \<open>[-kWPPropRange, kWPPropRange - 1]\<close>. With \<open>force_no_wp\<close> they are set to 0 and
  the first Weighted candidate, if there is one, is swapped to the back and removed
  together with its residual column. \<open>None\<close>: \<open>props[kWPProp]\<close> or
  \<open>residuals[wp_pos]\<close> is read out of range, or \<open>JXL_ASSERT(predictors.size() > 1)\<close>
  fails.
\<close>

definition force_wp_only_step ::
  "PropertyLayout \<Rightarrow> ModularOptions \<Rightarrow> int list list \<Rightarrow> int list list option" where
  "force_wp_only_step L opts props =
     (if force_wp_only opts then
        (if length props \<le> kWPProp L then None
         else Some (props[kWPProp L :=
                      map (\<lambda>v. min (max (- kWPPropRange) v) (kWPPropRange - 1))
                        (props ! kWPProp L)]))
      else Some props)"

definition force_no_wp_step ::
  "PropertyLayout \<Rightarrow> ModularOptions \<Rightarrow> Predictor list \<Rightarrow> int list list \<Rightarrow> int list list \<Rightarrow>
   (Predictor list \<times> int list list \<times> int list list) option" where
  "force_no_wp_step L opts predictors props residuals =
     (if force_no_wp opts then
        (if length props \<le> kWPProp L then None
         else
           (let props' = props[kWPProp L := map (\<lambda>v. 0) (props ! kWPProp L)];
                wp_pos = length (takeWhile (\<lambda>p. p \<noteq> Weighted) predictors)
            in if wp_pos \<noteq> length predictors then
                 (if length predictors \<le> 1 \<or> length residuals \<le> wp_pos then None
                  else Some (butlast (swap_at predictors wp_pos (length predictors - 1)),
                             props',
                             butlast (swap_at residuals wp_pos (length residuals - 1))))
               else Some (predictors, props', residuals)))
      else Some (predictors, props, residuals))"

text \<open>
  LearnTree up to the point where it hands over to the property quantiser and the tree
  builder (\<open>ChooseAndQuantizeProperties\<close>, \<open>ComputeBestTree\<close>: not among the sources),
  which are the parameter \<open>learn_body\<close>. The source has two tests one after the other:
  the first chooses the base predictor and swaps it to the front, the second, on the
  residuals as they are then, returns the single leaf. The result is \<open>None\<close> where the
  source has undefined behaviour or stops at an assertion: \<open>predictors[0]\<close> or
  \<open>predictors.back()\<close> on an empty vector, a residual column read past the end of
  \<open>residuals\<close> in the base predictor loop, and what \<open>force_wp_only_step\<close> and
  \<open>force_no_wp_step\<close> list.
\<close>

definition LearnTree ::
  "PropertyLayout \<Rightarrow>
   (Predictor list \<Rightarrow> int list list \<Rightarrow> int list list \<Rightarrow> nat \<Rightarrow> ModularOptions \<Rightarrow>
      'm \<Rightarrow> (nat \<times> nat) list \<Rightarrow> Tree option) \<Rightarrow>
   Predictor list \<Rightarrow> int list list \<Rightarrow> int list list \<Rightarrow> nat \<Rightarrow> ModularOptions \<Rightarrow>
      'm \<Rightarrow> (nat \<times> nat) list \<Rightarrow> Tree option" where
  "LearnTree L learn_body predictors props residuals total_pixels opts multiplier_info
       static_prop_range =
     (let static_range = map (\<lambda>(lo, hi). if hi = 0 then (lo, 2 ^ 32 - 1) else (lo, hi))
                    static_prop_range;
          based =
            (if 1 < length residuals \<and> residuals ! 0 \<noteq> [] then
               (if predictors = [] \<or> length residuals < length predictors then None
                else
                  (let base_pred = fst (choose_base_pred residuals (length predictors))
                   in Some (swap_at predictors base_pred 0, swap_at residuals base_pred 0)))
             else Some (predictors, residuals))
      in case based of
           None \<Rightarrow> None
         | Some (predictors1, residuals1) \<Rightarrow>
             if residuals1 = [] \<or> residuals1 ! 0 = [] then
               (if predictors1 = [] then None
                else Some [default_node\<lparr>predictor := last predictors1, property := - 1,
                                         predictor_offset := 0, multiplier := 1\<rparr>])
             else
               (case force_wp_only_step L opts props of
                  None \<Rightarrow> None
                | Some props1 \<Rightarrow>
                    (case force_no_wp_step L opts predictors1 props1 residuals1 of
                       None \<Rightarrow> None
                     | Some (predictors2, props2, residuals2) \<Rightarrow>
                         learn_body predictors2 props2 residuals2 total_pixels opts
                           multiplier_info static_range)))"

text \<open>A stand-in for the tree builder, for running LearnTree: a Gradient leaf.\<close>

definition gradient_leaf_body ::
  "Predictor list \<Rightarrow> int list list \<Rightarrow> int list list \<Rightarrow> nat \<Rightarrow> ModularOptions \<Rightarrow>
      unit \<Rightarrow> (nat \<times> nat) list \<Rightarrow> Tree option" where
  "gradient_leaf_body predictors props residuals total_pixels opts multiplier_info
       static_prop_range =
     Some [default_node\<lparr>predictor := Gradient\<rparr>]"

section \<open>FilterTree: trimming and flattening the tree\<close>

definition DivCeil :: "nat \<Rightarrow> nat \<Rightarrow> nat" where
  "DivCeil a b = (a + b - 1) div b"

text \<open>
  The inner loops of FilterTree that skip the nodes deciding on a static property. The
  result is \<open>None\<close> where the source does not return a value: the loop never ends, or
  it reads \<open>global_tree\<close> or \<open>static_props\<close> out of range.
\<close>

partial_function (option) skip_static :: "Tree \<Rightarrow> int list \<Rightarrow> nat \<Rightarrow> nat option" where
  "skip_static global_tree static_props cur =
     (if length global_tree \<le> cur then None
      else if property (global_tree ! cur) < int kNumStaticProperties \<and>
              property (global_tree ! cur) \<noteq> - 1 then
        (if property (global_tree ! cur) < 0 then None
         else if splitval (global_tree ! cur) <
                 static_props ! nat (property (global_tree ! cur)) then
           skip_static global_tree static_props (lchild (global_tree ! cur))
         else skip_static global_tree static_props (rchild (global_tree ! cur)))
      else Some cur)"

declare skip_static.simps [code]

text \<open>
  The local \<open>FlatDecisionNode flat\<close> is declared without an initialiser; the fields that
  a branch does not assign are given fixed values here, and no function of the model
  reads a field that was not assigned.
\<close>

definition flat_unassigned :: FlatDecisionNode where
  "flat_unassigned =
     \<lparr>predictor = Zero, predictor_offset = 0, multiplier = 0, property0 = 0,
      splitval0 = 0, properties = (0, 0), splitvals = (0, 0), childID = 0\<rparr>"

definition flat_leaf :: "PropertyDecisionNode \<Rightarrow> FlatDecisionNode" where
  "flat_leaf node =
     flat_unassigned\<lparr>property0 := - 1, childID := lchild node, predictor := predictor node,
       predictor_offset := predictor_offset node, multiplier := multiplier node\<rparr>"

record FilterState =
  flat_out :: FlatTree
  nodes :: "nat list"
  use_wp :: bool
  wp_only :: bool
  num_props :: nat
  used_properties :: nat

text \<open>
  One round of the loop over the two children of the current node: the decision recorded
  for the child, the two nodes pushed on the queue, and \<open>num_props\<close> afterwards.
\<close>

definition filter_child ::
  "Tree \<Rightarrow> int list \<Rightarrow> nat \<Rightarrow> nat \<Rightarrow> (int \<times> int \<times> nat list \<times> nat) option" where
  "filter_child global_tree static_props start nprops =
     (case skip_static global_tree static_props start of
        None \<Rightarrow> None
      | Some cur_child \<Rightarrow>
          if property (global_tree ! cur_child) = - 1 then
            Some (0, 0, [cur_child, cur_child], nprops)
          else
            Some (property (global_tree ! cur_child), splitval (global_tree ! cur_child),
                  [lchild (global_tree ! cur_child), rchild (global_tree ! cur_child)],
                  max (nat (property (global_tree ! cur_child) + 1)) nprops))"

text \<open>
  \<open>used_properties |= 1 << p\<close> for a property that is not static. The source shifts a
  32-bit \<open>int\<close>, which is defined for \<open>p < 31\<close>; the mask of the model is unbounded,
  so the model and the source agree on the flags for trees whose property ids are below
  31, and the statements about \<open>use_wp\<close> and \<open>wp_only\<close> are made for such trees
  only. For larger ids C++ leaves the shift undefined.
\<close>

definition mark_used :: "int \<Rightarrow> nat \<Rightarrow> nat" where
  "mark_used p used =
     (if int kNumStaticProperties \<le> p then used OR push_bit (nat p) 1 else used)"

text \<open>The body of the outer loop, for the node \<open>start\<close> just popped from the queue.\<close>

definition filter_node :: "Tree \<Rightarrow> int list \<Rightarrow> nat \<Rightarrow> FilterState \<Rightarrow> FilterState option" where
  "filter_node global_tree static_props start st =
     (case skip_static global_tree static_props start of
        None \<Rightarrow> None
      | Some cur \<Rightarrow>
          if property (global_tree ! cur) = - 1 then
            Some (st\<lparr>flat_out := flat_out st @ [flat_leaf (global_tree ! cur)],
                     use_wp := (if predictor (global_tree ! cur) = Weighted then True
                                else use_wp st),
                     wp_only := (if predictor (global_tree ! cur) = Weighted then wp_only st
                                 else False)\<rparr>)
          else
            (case filter_child global_tree static_props (lchild (global_tree ! cur))
                    (max (nat (property (global_tree ! cur) + 1)) (num_props st)) of
               None \<Rightarrow> None
             | Some (p0, s0, push0, nprops0) \<Rightarrow>
                 (case filter_child global_tree static_props (rchild (global_tree ! cur))
                         nprops0 of
                    None \<Rightarrow> None
                  | Some (p1, s1, push1, nprops1) \<Rightarrow>
                      Some (st\<lparr>flat_out := flat_out st @
                                 [flat_unassigned\<lparr>
                                    childID := length (flat_out st) + length (nodes st) + 1,
                                    property0 := property (global_tree ! cur),
                                    splitval0 := splitval (global_tree ! cur),
                                    properties := (p0, p1), splitvals := (s0, s1)\<rparr>],
                               nodes := nodes st @ push0 @ push1,
                               num_props := nprops1,
                               used_properties :=
                                 mark_used (property (global_tree ! cur))
                                   (mark_used p1 (mark_used p0 (used_properties st)))\<rparr>))))"

text \<open>The breadth-first loop: pop the front of the queue, run the body.\<close>

partial_function (option) filter_loop ::
  "Tree \<Rightarrow> int list \<Rightarrow> FilterState \<Rightarrow> FilterState option" where
  "filter_loop global_tree static_props st =
     (case nodes st of
        [] \<Rightarrow> Some st
      | cur # rest \<Rightarrow>
          (case filter_node global_tree static_props cur (st\<lparr>nodes := rest\<rparr>) of
             None \<Rightarrow> None
           | Some st' \<Rightarrow> filter_loop global_tree static_props st'))"

declare filter_loop.simps [code]

definition filter_init :: FilterState where
  "filter_init =
     \<lparr>flat_out = [], nodes = [0], use_wp = False, wp_only = True, num_props = 0,
      used_properties = 0\<rparr>"

text \<open>FilterTree returns the flat tree, \<open>num_props\<close>, \<open>use_wp\<close> and \<open>wp_only\<close>.\<close>

definition FilterTree ::
  "PropertyLayout \<Rightarrow> Tree \<Rightarrow> int list \<Rightarrow> (FlatTree \<times> nat \<times> bool \<times> bool) option" where
  "FilterTree L global_tree static_props =
     (case filter_loop global_tree static_props filter_init of
        None \<Rightarrow> None
      | Some st \<Rightarrow>
          Some (flat_out st,
                (if kNumNonrefProperties L < num_props st then
                   DivCeil (num_props st - kNumNonrefProperties L) (kExtraPropsPerChannel L)
                     * kExtraPropsPerChannel L + kNumNonrefProperties L
                 else kNumNonrefProperties L),
                (if used_properties st AND push_bit (kWPProp L) 1 \<noteq> 0 then True
                 else use_wp st),
                (if used_properties st \<noteq> push_bit (kWPProp L) 1 then False
                 else wp_only st)))"

section \<open>Tree lookup\<close>

text \<open>
  Modelled from the spec: naive descent of the authoring tree (the specification's
  reference for the flattener; the source has no function for it). An inner node routes
  to the left child when \<open>props[property] > splitval\<close> and to the right child otherwise;
  a leaf, marked by \<open>property = -1\<close>, gives the context (held in \<open>lchild\<close>, which is
  what FilterTree copies into \<open>childID\<close>), the predictor, the offset and the multiplier.
  \<open>None\<close>: the descent leaves the tree or never ends.
\<close>

partial_function (option) tree_descend ::
  "Tree \<Rightarrow> int list \<Rightarrow> nat \<Rightarrow> (nat \<times> Predictor \<times> int \<times> int) option" where
  "tree_descend tree props cur =
     (if length tree \<le> cur then None
      else if property (tree ! cur) = - 1 then
        Some (lchild (tree ! cur), predictor (tree ! cur), predictor_offset (tree ! cur),
              multiplier (tree ! cur))
      else if property (tree ! cur) < 0 then None
      else if splitval (tree ! cur) < props ! nat (property (tree ! cur)) then
        tree_descend tree props (lchild (tree ! cur))
      else tree_descend tree props (rchild (tree ! cur)))"

declare tree_descend.simps [code]

text \<open>
  Modelled from the spec: lookup in the flat tree (\<open>MATreeLookup\<close>, declared in
  \<open>ma.h\<close>, not among the sources). From a flat node, the top decision
  \<open>props[property0] > splitval0\<close> chooses the child \<open>top\<close> (0 when it holds, 1
  otherwise, as \<open>properties[0]\<close> belongs to the left child), the decision
  \<open>props[properties[top]] > splitvals[top]\<close> chooses \<open>sub\<close> in the same way, and the
  lookup continues at \<open>childID + 2 * top + sub\<close>. This is the layout FilterTree
  writes and the range walks of the source read (\<open>childID\<close>, \<open>childID + 1\<close> on the
  greater side, \<open>childID + 2\<close>, \<open>childID + 3\<close> on the other side).
\<close>

partial_function (option) flat_lookup ::
  "FlatTree \<Rightarrow> int list \<Rightarrow> nat \<Rightarrow> (nat \<times> Predictor \<times> int \<times> int) option" where
  "flat_lookup tree props pos =
     (if length tree \<le> pos then None
      else if property0 (tree ! pos) = - 1 then
        Some (childID (tree ! pos), predictor (tree ! pos), predictor_offset (tree ! pos),
              multiplier (tree ! pos))
      else if splitval0 (tree ! pos) < props ! nat (property0 (tree ! pos)) then
        (if fst (splitvals (tree ! pos)) < props ! nat (fst (properties (tree ! pos)))
         then flat_lookup tree props (childID (tree ! pos))
         else flat_lookup tree props (childID (tree ! pos) + 1))
      else
        (if snd (splitvals (tree ! pos)) < props ! nat (snd (properties (tree ! pos)))
         then flat_lookup tree props (childID (tree ! pos) + 2)
         else flat_lookup tree props (childID (tree ! pos) + 3)))"

declare flat_lookup.simps [code]

definition MATreeLookup :: "FlatTree \<Rightarrow> int list \<Rightarrow> (nat \<times> Predictor \<times> int \<times> int) option" where
  "MATreeLookup tree props = flat_lookup tree props 0"

text \<open>
  A well-formed authoring tree: every path from node 0 stays inside the array, passes
  only nodes whose property is a property id or \<open>-1\<close>, and ends at a leaf. A path of a
  tree visits no node twice, so it is at most as long as the array.
\<close>

fun wf_depth :: "Tree \<Rightarrow> nat \<Rightarrow> nat \<Rightarrow> bool" where
  "wf_depth tree 0 cur = (cur < length tree \<and> property (tree ! cur) = - 1)"
| "wf_depth tree (Suc d) cur =
     (cur < length tree \<and>
      (property (tree ! cur) = - 1 \<or>
       (0 \<le> property (tree ! cur) \<and> wf_depth tree d (lchild (tree ! cur)) \<and>
        wf_depth tree d (rchild (tree ! cur)))))"

definition well_formed :: "Tree \<Rightarrow> bool" where
  "well_formed tree = wf_depth tree (length tree) 0"

section \<open>What the flags of FilterTree say about the flat tree\<close>

text \<open>
  The properties that the decision nodes of a flat tree test, static ones and the
  placeholder 0 of a folded leaf left out: the ones FilterTree collects in
  \<open>used_properties\<close>.
\<close>

definition decision_properties :: "FlatTree \<Rightarrow> nat set" where
  "decision_properties F =
     {nat p | p n. n \<in> set F \<and> property0 n \<noteq> - 1 \<and>
        (p = property0 n \<or> p = fst (properties n) \<or> p = snd (properties n)) \<and>
        int kNumStaticProperties \<le> p}"

text \<open>Every leaf of the flat tree has the Weighted predictor.\<close>

definition leaves_weighted :: "FlatTree \<Rightarrow> bool" where
  "leaves_weighted F = (\<forall>n \<in> set F. property0 n = - 1 \<longrightarrow> predictor n = Weighted)"

text \<open>The loop invariant of FilterTree that ties the two flags to the output so far.\<close>

definition flags_inv :: "FilterState \<Rightarrow> bool" where
  "flags_inv st =
     ((wp_only st \<longleftrightarrow> leaves_weighted (flat_out st)) \<and>
      (\<forall>i. bit (used_properties st) i \<longleftrightarrow> i \<in> decision_properties (flat_out st)))"

text \<open>
  An ordered flat tree: the children of a decision node lie behind it, inside the array.
\<close>

definition flat_ordered :: "FlatTree \<Rightarrow> bool" where
  "flat_ordered F =
     (\<forall>k < length F. property0 (F ! k) \<noteq> - 1 \<longrightarrow>
        k < childID (F ! k) \<and> childID (F ! k) + 3 < length F)"

text \<open>
  Trees to run FilterTree on, with the layout of sixteen properties before the
  reference properties, the last of them the property of the weighted predictor (15).
  \<open>example_tree\<close> decides on the channel at its root; for channel 0 it goes on to two
  decisions on property 15 above three Weighted leaves.
\<close>

definition example_layout :: PropertyLayout where
  "example_layout =
     \<lparr>kNumNonrefProperties = 16, weighted_kNumProperties = 1, kExtraPropsPerChannel = 4\<rparr>"

definition decision_node :: "int \<Rightarrow> int \<Rightarrow> nat \<Rightarrow> nat \<Rightarrow> PropertyDecisionNode" where
  "decision_node p sv l r =
     \<lparr>predictor = Zero, predictor_offset = 0, multiplier = 1, splitval = sv, property = p,
      lchild = l, rchild = r\<rparr>"

definition leaf_node :: "Predictor \<Rightarrow> nat \<Rightarrow> int \<Rightarrow> int \<Rightarrow> PropertyDecisionNode" where
  "leaf_node pr ctx off mul =
     \<lparr>predictor = pr, predictor_offset = off, multiplier = mul, splitval = 0,
      property = - 1, lchild = ctx, rchild = 0\<rparr>"

definition example_tree :: Tree where
  "example_tree =
     [decision_node 0 0 1 2, leaf_node Gradient 0 0 1, decision_node 15 10 3 4,
      decision_node 15 100 5 6, leaf_node Weighted 1 0 1, leaf_node Weighted 2 0 1,
      leaf_node Weighted 3 0 1]"

definition example_props :: "int list" where
  "example_props = [0, 0, 0, 0, 0, 0, 0, 0, 0, 0, 0, 0, 0, 50]"

definition weighted_leaf_tree :: Tree where
  "weighted_leaf_tree = [leaf_node Weighted 0 0 1]"
section \<open>The range walk of the WP-only fast path\<close>

text \<open>
  \<open>struct TreeRange { int begin, end; size_t pos; }\<close>: begin excluded, end included.
\<close>

record TreeRange =
  range_begin :: int
  range_end :: int
  pos :: nat

text \<open>
  What the walk can do that C++ leaves undefined: a write outside a lookup table, and a
  read of \<open>tree[cur.pos]\<close> outside the flat tree. The model stops with the fault.
\<close>

datatype walk_fault = TableWriteOutOfBounds | TreeReadOutOfBounds

text \<open>The test on the region popped from the stack ("Tree is outside the allowed range").\<close>

definition region_refused :: "TreeRange \<Rightarrow> bool" where
  "region_refused cur =
     (range_begin cur < - kWPPropRange - 1 \<or> kWPPropRange - 1 \<le> range_begin cur \<or>
      kWPPropRange - 1 < range_end cur)"

text \<open>
  The regions pushed for a decision node: first the greater side of the top node, then
  the other side. The head of the list is the back of the vector.
\<close>

definition push_children :: "FlatDecisionNode \<Rightarrow> TreeRange \<Rightarrow> TreeRange list \<Rightarrow> TreeRange list" where
  "push_children node cur ranges =
     (let greater_side =
        (if int kNumStaticProperties \<le> fst (properties node) then
           \<lparr>range_begin = splitval0 node, range_end = fst (splitvals node),
            pos = childID node + 1\<rparr> #
           \<lparr>range_begin = fst (splitvals node), range_end = range_end cur,
            pos = childID node\<rparr> # ranges
         else
           \<lparr>range_begin = splitval0 node, range_end = range_end cur,
            pos = childID node\<rparr> # ranges)
      in if int kNumStaticProperties \<le> snd (properties node) then
           \<lparr>range_begin = range_begin cur, range_end = snd (splitvals node),
            pos = childID node + 3\<rparr> #
           \<lparr>range_begin = snd (splitvals node), range_end = splitval0 node,
            pos = childID node + 2\<rparr> # greater_side
         else
           \<lparr>range_begin = range_begin cur, range_end = splitval0 node,
            pos = childID node + 2\<rparr> # greater_side)"

text \<open>
  The loop of a leaf over \<open>i = begin + 1 .. end\<close>, with the table write \<open>wr\<close> of the
  encoder or of the decoder; a write that fails ends it.
\<close>

fun fill_entries :: "(int \<Rightarrow> 't \<Rightarrow> walk_fault + 't) \<Rightarrow> int list \<Rightarrow> 't \<Rightarrow> walk_fault + 't" where
  "fill_entries wr [] tables = Inr tables"
| "fill_entries wr (i # rest) tables =
     (case wr i tables of Inl fault \<Rightarrow> Inl fault
      | Inr tables' \<Rightarrow> fill_entries wr rest tables')"

text \<open>
  The walk itself. The encoder and the decoder contain the same loop; they differ in the
  test of a leaf (\<open>leaf_refused\<close>) and in the tables a leaf writes (\<open>wr\<close>). The result
  is \<open>None\<close> when the loop never ends, a fault, or \<open>is_wp_only\<close> with the tables.
\<close>

partial_function (option) range_walk ::
  "(FlatDecisionNode \<Rightarrow> bool) \<Rightarrow> (FlatDecisionNode \<Rightarrow> int \<Rightarrow> 't \<Rightarrow> walk_fault + 't) \<Rightarrow>
   FlatTree \<Rightarrow> TreeRange list \<Rightarrow> 't \<Rightarrow> (walk_fault + bool \<times> 't) option" where
  "range_walk leaf_refused wr tree ranges tables =
     (case ranges of
        [] \<Rightarrow> Some (Inr (True, tables))
      | cur # rest \<Rightarrow>
          if region_refused cur then Some (Inr (False, tables))
          else if length tree \<le> pos cur then Some (Inl TreeReadOutOfBounds)
          else if property0 (tree ! pos cur) = - 1 then
            (if leaf_refused (tree ! pos cur) then Some (Inr (False, tables))
             else
               (case fill_entries (wr (tree ! pos cur))
                       [range_begin cur + 1 .. range_end cur] tables of
                  Inl fault \<Rightarrow> Some (Inl fault)
                | Inr tables' \<Rightarrow> range_walk leaf_refused wr tree rest tables'))
          else range_walk leaf_refused wr tree
                 (push_children (tree ! pos cur) cur rest) tables)"

declare range_walk.simps [code]

definition root_range :: TreeRange where
  "root_range = \<lparr>range_begin = - kWPPropRange - 1, range_end = kWPPropRange - 1, pos = 0\<rparr>"

subsection \<open>Encoder\<close>

text \<open>
  The encoder has one table, \<open>uint16_t context_lookup[2 * kWPPropRange]\<close>, and refuses
  a leaf whose offset is outside \<open>int8_t\<close>, whose multiplier is not 1 or whose offset
  is not 0.
\<close>

definition enc_leaf_refused :: "FlatDecisionNode \<Rightarrow> bool" where
  "enc_leaf_refused node =
     (predictor_offset node < - 128 \<or> 127 < predictor_offset node \<or>
      multiplier node \<noteq> 1 \<or> predictor_offset node \<noteq> 0)"

definition enc_write :: "FlatDecisionNode \<Rightarrow> int \<Rightarrow> nat list \<Rightarrow> walk_fault + nat list" where
  "enc_write node i context_lookup =
     (if 0 \<le> i + kWPPropRange \<and> i + kWPPropRange < 2 * kWPPropRange then
        Inr (context_lookup[nat (i + kWPPropRange) := childID node mod 2 ^ 16])
      else Inl TableWriteOutOfBounds)"

text \<open>
  \<open>is_wp_only\<close> after the encoder's check, which runs only if FilterTree returned
  \<open>wp_only\<close>: the encoder takes the WP-only path exactly when it is true.
\<close>

definition encode_is_wp_only :: "FlatTree \<Rightarrow> bool \<Rightarrow> (walk_fault + bool \<times> nat list) option" where
  "encode_is_wp_only tree is_wp_only =
     (if is_wp_only then
        range_walk enc_leaf_refused enc_write tree [root_range]
          (replicate (nat (2 * kWPPropRange)) 0)
      else Some (Inr (False, replicate (nat (2 * kWPPropRange)) 0)))"

subsection \<open>Decoder\<close>

text \<open>
  The decoder has three tables of \<open>2 * kWPPropRange\<close> entries: \<open>uint8_t
  context_lookup\<close>, \<open>int32_t multipliers\<close> and \<open>int8_t offsets\<close>.
\<close>

record WPTables =
  context_lookup :: "nat list"
  multipliers :: "int list"
  offsets :: "int list"

text \<open>The value an \<open>int8_t\<close> holds after an integer is stored in it.\<close>

definition to_int8 :: "int \<Rightarrow> int" where
  "to_int8 x = sint (word_of_int x :: 8 word)"

definition dec_leaf_refused :: "FlatDecisionNode \<Rightarrow> bool" where
  "dec_leaf_refused node = (predictor_offset node < - 128 \<or> 127 < predictor_offset node)"

definition dec_write :: "FlatDecisionNode \<Rightarrow> int \<Rightarrow> WPTables \<Rightarrow> walk_fault + WPTables" where
  "dec_write node i tables =
     (if 0 \<le> i + kWPPropRange \<and> i + kWPPropRange < 2 * kWPPropRange then
        Inr (tables\<lparr>
          context_lookup :=
            (context_lookup tables)[nat (i + kWPPropRange) := childID node mod 2 ^ 8],
          multipliers := (multipliers tables)[nat (i + kWPPropRange) := multiplier node],
          offsets :=
            (offsets tables)[nat (i + kWPPropRange) := to_int8 (predictor_offset node)]\<rparr>)
      else Inl TableWriteOutOfBounds)"

definition zero_tables :: WPTables where
  "zero_tables =
     \<lparr>context_lookup = replicate (nat (2 * kWPPropRange)) 0,
      multipliers = replicate (nat (2 * kWPPropRange)) 0,
      offsets = replicate (nat (2 * kWPPropRange)) 0\<rparr>"

text \<open>
  Before the walk the decoder replaces the context of every leaf by its clustered
  context, \<open>tree[i].childID = context_map[tree[i].childID]\<close>.
\<close>

definition cluster_contexts :: "nat list \<Rightarrow> FlatTree \<Rightarrow> FlatTree" where
  "cluster_contexts context_map tree =
     map (\<lambda>node. if property0 node = - 1
                  then node\<lparr>childID := context_map ! childID node\<rparr> else node) tree"

definition decode_is_wp_only :: "FlatTree \<Rightarrow> bool \<Rightarrow> (walk_fault + bool \<times> WPTables) option" where
  "decode_is_wp_only tree is_wp_only =
     (if is_wp_only then range_walk dec_leaf_refused dec_write tree [root_range] zero_tables
      else Some (Inr (False, zero_tables)))"

subsection \<open>The regions of a walk\<close>

text \<open>
  The regions a walk would visit if nothing stopped it: the root region, and the regions
  pushed for every decision node it comes to.
\<close>

definition region_children :: "FlatTree \<Rightarrow> TreeRange \<Rightarrow> TreeRange list" where
  "region_children tree cur =
     (if pos cur < length tree \<and> property0 (tree ! pos cur) \<noteq> - 1
      then push_children (tree ! pos cur) cur [] else [])"

inductive region_below :: "FlatTree \<Rightarrow> TreeRange \<Rightarrow> TreeRange \<Rightarrow> bool" for tree where
  self: "region_below tree r r"
| step: "c \<in> set (region_children tree r) \<Longrightarrow> region_below tree c r' \<Longrightarrow>
         region_below tree r r'"

definition walk_region :: "FlatTree \<Rightarrow> TreeRange \<Rightarrow> bool" where
  "walk_region tree r = region_below tree root_range r"

text \<open>
  A region the walk passes without clearing \<open>is_wp_only\<close>: it is inside the allowed
  range, its node is in the flat tree, and if the node is a leaf the leaf is not refused.
\<close>

definition region_accepted :: "(FlatDecisionNode \<Rightarrow> bool) \<Rightarrow> FlatTree \<Rightarrow> TreeRange \<Rightarrow> bool" where
  "region_accepted leaf_refused tree r =
     (\<not> region_refused r \<and> pos r < length tree \<and>
      (property0 (tree ! pos r) = - 1 \<longrightarrow> \<not> leaf_refused (tree ! pos r)))"

text \<open>A table write that succeeds for every property value of the table.\<close>

definition writes_in_range :: "(FlatDecisionNode \<Rightarrow> int \<Rightarrow> 't \<Rightarrow> walk_fault + 't) \<Rightarrow> bool" where
  "writes_in_range wr =
     (\<forall>node i tables. - kWPPropRange \<le> i \<and> i < kWPPropRange \<longrightarrow>
        (\<exists>tables'. wr node i tables = Inr tables'))"

section \<open>Reconstruction of a pixel in DecodeModularChannelMAANS\<close>

text \<open>
  Modelled from the spec: \<open>SaturatingAdd<pixel_type>\<close> (declared outside the sources):
  the sum, computed in the wide type, saturated to the 32-bit pixel type.
\<close>

definition SaturatingAdd :: "int \<Rightarrow> int \<Rightarrow> int" where
  "SaturatingAdd a b = max (- (2 ^ 31)) (min (2 ^ 31 - 1) (a + b))"

text \<open>
  Modelled from the spec: \<open>UnpackSigned\<close> (declared outside the sources), the inverse
  of the zig-zag folding \<open>PackSigned\<close>.
\<close>

definition UnpackSigned :: "nat \<Rightarrow> int" where
  "UnpackSigned v = (if even v then int (v div 2) else - int (v div 2) - 1)"

text \<open>
  The WP fast track: the table position of a value of the WP property,
  \<open>kWPPropRange + min(max(-kWPPropRange, properties[0]), kWPPropRange - 1)\<close>, and the
  pixel \<open>SaturatingAdd(UnpackSigned(v) * multipliers[pos] + offsets[pos], guess)\<close>.
\<close>

definition wp_table_pos :: "int \<Rightarrow> nat" where
  "wp_table_pos value_of_wp = nat (kWPPropRange + min (max (- kWPPropRange) value_of_wp) (kWPPropRange - 1))"

definition wp_fast_pixel :: "WPTables \<Rightarrow> int \<Rightarrow> nat \<Rightarrow> int \<Rightarrow> int" where
  "wp_fast_pixel tables value_of_wp v guess =
     SaturatingAdd
       (UnpackSigned v * multipliers tables ! wp_table_pos value_of_wp +
        offsets tables ! wp_table_pos value_of_wp)
       guess"

text \<open>
  The tracks of a tree that is a single leaf: with the Zero predictor
  (\<open>SaturatingAdd(UnpackSigned(v) * multiplier, offset)\<close>, the fastest and the fast
  track), and with another predictor, weighted or not
  (\<open>g = guess + offset; SaturatingAdd(UnpackSigned(v) * multiplier, g)\<close>).
\<close>

definition zero_leaf_pixel :: "FlatDecisionNode \<Rightarrow> nat \<Rightarrow> int" where
  "zero_leaf_pixel leaf v =
     SaturatingAdd (UnpackSigned v * multiplier leaf) (predictor_offset leaf)"

definition single_leaf_pixel :: "FlatDecisionNode \<Rightarrow> int \<Rightarrow> nat \<Rightarrow> int" where
  "single_leaf_pixel leaf guess v =
     (let g = guess + predictor_offset leaf
      in SaturatingAdd (UnpackSigned v * multiplier leaf) g)"

text \<open>
  The slow and the slowest track:
  \<open>SaturatingAdd(UnpackSigned(v) * res.multiplier, res.guess)\<close> with the result of the
  tree predictor, whose context is the one the symbol is read with.
\<close>

record PredictionResult =
  res_context :: nat
  res_guess :: int
  res_multiplier :: int

definition tree_pixel :: "PredictionResult \<Rightarrow> nat \<Rightarrow> int" where
  "tree_pixel res v = SaturatingAdd (UnpackSigned v * res_multiplier res) (res_guess res)"

text \<open>
  Modelled from the spec: the result of \<open>PredictTreeWP\<close> and \<open>PredictTreeNoWP\<close>
  (\<open>context_predict.h\<close>, not among the sources): the lookup of the property vector
  in the flat tree, and for the leaf it finds the context and the multiplier of the leaf,
  and as guess the prediction of the leaf's predictor plus the offset of the leaf.
  \<open>predict\<close> gives the prediction of every predictor at the pixel.
\<close>

definition predict_tree_result ::
  "FlatTree \<Rightarrow> int list \<Rightarrow> (Predictor \<Rightarrow> int) \<Rightarrow> PredictionResult option" where
  "predict_tree_result tree props predict =
     (case MATreeLookup tree props of
        None \<Rightarrow> None
      | Some (ctx, pred, off, mul) \<Rightarrow>
          Some \<lparr>res_context = ctx, res_guess = off + predict pred, res_multiplier = mul\<rparr>)"

text \<open>
  One pixel of DecodeModularChannelMAANS after the range walk, track by track. At a
  pixel the decoder has the property vector \<open>props\<close> (the static properties first; the
  WP fast track computes only the WP property, which is \<open>props[kWPProp]\<close>), the
  prediction \<open>predict\<close> of every predictor, and the symbol the reader gives for a
  context, \<open>symbol\<close> (\<open>ReadHybridUintClustered\<close>; on the fastest track the single
  value of the histogram, which is the symbol of every pixel). The slow and the slowest
  track differ in the state they keep, not in the pixel. \<open>None\<close>: the tree lookup
  does not return.
\<close>

definition decode_pixel ::
  "PropertyLayout \<Rightarrow> FlatTree \<Rightarrow> bool \<Rightarrow> WPTables \<Rightarrow> int list \<Rightarrow> (Predictor \<Rightarrow> int) \<Rightarrow>
   (nat \<Rightarrow> nat) \<Rightarrow> int option" where
  "decode_pixel L tree is_wp_only tables props predict symbol =
     (if is_wp_only then
        (let guess = predict Weighted;
             ctx_id = context_lookup tables ! wp_table_pos (props ! kWPProp L);
             v = symbol ctx_id
         in Some (wp_fast_pixel tables (props ! kWPProp L) v guess))
      else if length tree = 1 then
        (let ctx_id = childID (tree ! 0)
         in if predictor (tree ! 0) = Zero then
              Some (zero_leaf_pixel (tree ! 0) (symbol ctx_id))
            else
              Some (single_leaf_pixel (tree ! 0) (predict (predictor (tree ! 0)))
                      (symbol ctx_id)))
      else
        (case predict_tree_result tree props predict of
           None \<Rightarrow> None
         | Some res \<Rightarrow> Some (tree_pixel res (symbol (res_context res)))))"

text \<open>
  DecodeModularChannelMAANS for one pixel of a channel: FilterTree, the clustered
  contexts, the range walk, and the track. \<open>None\<close>: FilterTree or the walk does not
  return a value.
\<close>

definition decode_channel_pixel ::
  "PropertyLayout \<Rightarrow> Tree \<Rightarrow> int list \<Rightarrow> nat list \<Rightarrow> int list \<Rightarrow> (Predictor \<Rightarrow> int) \<Rightarrow>
   (nat \<Rightarrow> nat) \<Rightarrow> int option" where
  "decode_channel_pixel L global_tree static_props context_map props predict symbol =
     (case FilterTree L global_tree static_props of
        None \<Rightarrow> None
      | Some (flat, nprops, tree_has_wp_prop_or_pred, filtered_wp_only) \<Rightarrow>
          (case decode_is_wp_only (cluster_contexts context_map flat) filtered_wp_only of
             Some (Inr (is_wp_only, tables)) \<Rightarrow>
               decode_pixel L (cluster_contexts context_map flat) is_wp_only tables props
                 predict symbol
           | _ \<Rightarrow> None))"

text \<open>
  The pixel as the specification gives it: the saturating sum of
  \<open>UnpackSigned(symbol) * leaf.multiplier\<close> and \<open>leaf.predictor_offset + prediction\<close>
  for the leaf that the tree selects for the pixel, with the symbol of that leaf's
  context and the prediction of that leaf's predictor.
\<close>

definition specified_pixel ::
  "FlatTree \<Rightarrow> int list \<Rightarrow> (Predictor \<Rightarrow> int) \<Rightarrow> (nat \<Rightarrow> nat) \<Rightarrow> int option" where
  "specified_pixel tree props predict symbol =
     (case MATreeLookup tree props of
        None \<Rightarrow> None
      | Some (ctx, pred, off, mul) \<Rightarrow>
          Some (SaturatingAdd (UnpackSigned (symbol ctx) * mul) (off + predict pred)))"

definition specified_channel_pixel ::
  "PropertyLayout \<Rightarrow> Tree \<Rightarrow> int list \<Rightarrow> nat list \<Rightarrow> int list \<Rightarrow> (Predictor \<Rightarrow> int) \<Rightarrow>
   (nat \<Rightarrow> nat) \<Rightarrow> int option" where
  "specified_channel_pixel L global_tree static_props context_map props predict symbol =
     (case FilterTree L global_tree static_props of
        None \<Rightarrow> None
      | Some (flat, nprops, tree_has_wp_prop_or_pred, filtered_wp_only) \<Rightarrow>
          specified_pixel (cluster_contexts context_map flat) props predict symbol)"

text \<open>
  A tree whose second decision on the WP property splits at -100 inside the region
  above 0: the regions of the walk overlap. For the property value -50 the tree selects
  the leaf of context 2 (offset 30). With it, the flat tree FilterTree makes of it, a
  context map that keeps the three contexts apart, a property vector with the WP property -50, the predictions of a pixel (100 from every
  predictor, 0 from Zero) and a reader that gives the symbol 4 for every context.
\<close>

definition overlap_tree :: Tree where
  "overlap_tree =
     [decision_node 15 0 1 2, decision_node 15 (- 100) 3 4, leaf_node Weighted 2 30 1,
      leaf_node Weighted 0 10 1, leaf_node Weighted 1 20 1]"

definition overlap_flat :: FlatTree where
  "overlap_flat =
     [flat_unassigned\<lparr>childID := 1, property0 := 15, splitval0 := 0,
        properties := (15, 0), splitvals := (- 100, 0)\<rparr>,
      flat_leaf (leaf_node Weighted 0 10 1), flat_leaf (leaf_node Weighted 1 20 1),
      flat_leaf (leaf_node Weighted 2 30 1), flat_leaf (leaf_node Weighted 2 30 1)]"

definition overlap_context_map :: "nat list" where
  "overlap_context_map = [0, 1, 2]"

definition overlap_props :: "int list" where
  "overlap_props = [0, 0, 0, 0, 0, 0, 0, 0, 0, 0, 0, 0, 0, 0, 0, - 50]"

definition pixel_predictions :: "Predictor \<Rightarrow> int" where
  "pixel_predictions p = (if p = Zero then 0 else 100)"

definition symbol_four :: "nat \<Rightarrow> nat" where
  "symbol_four ctx = 4"

definition below_region :: TreeRange where
  "below_region = \<lparr>range_begin = - 513, range_end = 0, pos = 3\<rparr>"

definition empty_region :: TreeRange where
  "empty_region = \<lparr>range_begin = 0, range_end = - 100, pos = 2\<rparr>"

definition above_region :: TreeRange where
  "above_region = \<lparr>range_begin = - 100, range_end = 511, pos = 1\<rparr>"

text \<open>Tables of the declared size.\<close>

definition tables_sized :: "WPTables \<Rightarrow> bool" where
  "tables_sized tables =
     (length (context_lookup tables) = nat (2 * kWPPropRange) \<and>
      length (multipliers tables) = nat (2 * kWPPropRange) \<and>
      length (offsets tables) = nat (2 * kWPPropRange))"

text \<open>
  A flat tree with one decision on the WP property above two pairs of leaves with
  offset 5, and the two regions its walk pushes.
\<close>

definition offset_tree :: Tree where
  "offset_tree =
     [decision_node 15 0 1 2, leaf_node Weighted 0 5 1, leaf_node Weighted 1 5 1]"

definition offset_flat :: FlatTree where
  "offset_flat =
     [flat_unassigned\<lparr>childID := 1, property0 := 15, splitval0 := 0,
        properties := (0, 0), splitvals := (0, 0)\<rparr>,
      flat_leaf (leaf_node Weighted 0 5 1), flat_leaf (leaf_node Weighted 0 5 1),
      flat_leaf (leaf_node Weighted 1 5 1), flat_leaf (leaf_node Weighted 1 5 1)]"

definition upper_region :: TreeRange where
  "upper_region = \<lparr>range_begin = 0, range_end = 511, pos = 1\<rparr>"

definition lower_region :: TreeRange where
  "lower_region = \<lparr>range_begin = - 513, range_end = 0, pos = 3\<rparr>"

text \<open>
  The flat tree of \<open>example_tree\<close> for channel 0, and the three regions its walk
  pushes.
\<close>

definition example_flat :: FlatTree where
  "example_flat =
     [flat_unassigned\<lparr>childID := 1, property0 := 15, splitval0 := 10,
        properties := (15, 0), splitvals := (100, 0)\<rparr>,
      flat_leaf (leaf_node Weighted 2 0 1), flat_leaf (leaf_node Weighted 3 0 1),
      flat_leaf (leaf_node Weighted 1 0 1), flat_leaf (leaf_node Weighted 1 0 1)]"

definition high_region :: TreeRange where
  "high_region = \<lparr>range_begin = 100, range_end = 511, pos = 1\<rparr>"

definition middle_region :: TreeRange where
  "middle_region = \<lparr>range_begin = 10, range_end = 100, pos = 2\<rparr>"

definition low_region :: TreeRange where
  "low_region = \<lparr>range_begin = - 513, range_end = 10, pos = 3\<rparr>"

section \<open>Sampling in GatherTreeData\<close>

text \<open>
  The generator of \<open>use_sample\<close>: the two 64-bit words \<open>s[0]\<close>, \<open>s[1]\<close>, seeded in
  GatherTreeData at every call, and the update that one call of \<open>use_sample\<close> makes.
\<close>

type_synonym rng_state = "64 word \<times> 64 word"

definition rng_seed :: rng_state where
  "rng_seed = (0x94D049BB133111EB, 0xBF58476D1CE4E5B9)"

definition rng_next :: "rng_state \<Rightarrow> rng_state" where
  "rng_next s =
     (let s1 = fst s; s0 = snd s;
          s1' = s1 XOR push_bit 23 s1;
          s1'' = s1' XOR (s0 XOR drop_bit 18 s1' XOR drop_bit 5 s0)
      in (s0, s1''))"

text \<open>\<open>use_sample\<close>: the decision \<open>(bits >> 32) <= threshold\<close> and the next state.\<close>

definition use_sample :: "64 word \<Rightarrow> rng_state \<Rightarrow> bool \<times> rng_state" where
  "use_sample threshold s = (drop_bit 32 (fst s + snd s) \<le> threshold, rng_next s)"

text \<open>
  \<open>pixel_fraction\<close> and \<open>threshold\<close>. The source computes them in \<open>float\<close> and
  \<open>double\<close>; the model keeps the fraction exact, as a numerator and a denominator
  (\<open>nb_repeats = 0\<close> is \<open>(0, 1)\<close>). For \<open>nb_repeats = 0\<close> the two agree: the fraction
  is 0, the test \<open>pixel_fraction > 0\<close> fails, and the threshold is
  \<open>(2^64 - 1 >> 32) * 0 = 0\<close>.
\<close>

type_synonym fraction = "nat \<times> nat"

definition frac_le :: "fraction \<Rightarrow> fraction \<Rightarrow> bool" where
  "frac_le a b = (fst a * snd b \<le> fst b * snd a)"

definition frac_min :: "fraction \<Rightarrow> fraction \<Rightarrow> fraction" where
  "frac_min a b = (if frac_le a b then a else b)"

definition frac_max :: "fraction \<Rightarrow> fraction \<Rightarrow> fraction" where
  "frac_max a b = (if frac_le a b then b else a)"

definition pixel_fraction :: "fraction \<Rightarrow> nat \<Rightarrow> nat \<Rightarrow> fraction" where
  "pixel_fraction nb_repeats cw ch =
     (let fraction = frac_min (1, 1) nb_repeats
      in if 0 < fst fraction then frac_max fraction (frac_min (1, 1) (1024, cw * ch))
         else fraction)"

definition sample_threshold :: "fraction \<Rightarrow> 64 word" where
  "sample_threshold fraction = word_of_nat (((2 ^ 32 - 1) * fst fraction) div snd fraction)"

text \<open>
  \<open>residuals[i].push_back(res[i])\<close> for every predictor, and
  \<open>props[i].push_back(properties[i])\<close> for every property.
\<close>

definition push_back_all :: "int list \<Rightarrow> int list list \<Rightarrow> int list list" where
  "push_back_all vals cols = fold (\<lambda>i cs. cs[i := cs ! i @ [vals ! i]]) [0 ..< length vals] cols"

text \<open>
  The loop over the pixels of the channel, in raster order. What the predictors compute
  for a pixel (\<open>PredictLearnAll\<close>, \<open>PredictLearn\<close>: not among the sources) is given:
  \<open>pixel_data\<close> lists, for every pixel, the residuals \<open>res\<close> of the candidate
  predictors and the property vector. The loop counts the pixel, asks \<open>use_sample\<close>,
  and appends the sample if it says so.
\<close>

fun gather_pixels ::
  "64 word \<Rightarrow> (int list \<times> int list) list \<Rightarrow> rng_state \<Rightarrow>
   int list list \<times> int list list \<times> nat \<Rightarrow> int list list \<times> int list list \<times> nat" where
  "gather_pixels threshold [] s acc = acc"
| "gather_pixels threshold ((res, property_values) # rest) s (props, residuals, total_pixels) =
     (if fst (use_sample threshold s) then
        gather_pixels threshold rest (snd (use_sample threshold s))
          (push_back_all property_values props, push_back_all res residuals, total_pixels + 1)
      else
        gather_pixels threshold rest (snd (use_sample threshold s))
          (props, residuals, total_pixels + 1))"

text \<open>\<open>std::vector::resize\<close> on a vector of columns: cut, or filled up with empty columns.\<close>

definition resize_columns :: "nat \<Rightarrow> int list list \<Rightarrow> int list list" where
  "resize_columns n cols = take n cols @ replicate (n - length cols) []"

text \<open>
  GatherTreeData for a channel of \<open>cw\<close> by \<open>ch\<close> pixels: the threshold, the sizing of
  \<open>props\<close> and \<open>residuals\<close> when \<open>props\<close> is empty, and the loop. It returns
  \<open>props\<close>, \<open>residuals\<close> and \<open>total_pixels\<close>. \<open>None\<close>: \<open>residuals[i]\<close> is read past
  the end of \<open>residuals\<close> for a predictor, or \<open>JXL_ASSERT(props.size() ==
  properties.size())\<close> fails.
\<close>

definition GatherTreeData ::
  "(int list \<times> int list) list \<Rightarrow> nat \<Rightarrow> nat \<Rightarrow> nat \<Rightarrow> nat \<Rightarrow> fraction \<Rightarrow>
   int list list \<Rightarrow> int list list \<Rightarrow> nat \<Rightarrow>
   (int list list \<times> int list list \<times> nat) option" where
  "GatherTreeData pixel_data cw ch num_properties num_predictors nb_repeats props residuals
       total_pixels =
     (let threshold = sample_threshold (pixel_fraction nb_repeats cw ch);
          props' = (if props = [] then resize_columns num_properties props else props);
          residuals' = (if props = [] then resize_columns num_predictors residuals
                        else residuals)
      in if length residuals' < num_predictors \<or> length props' \<noteq> num_properties then None
         else Some (gather_pixels threshold pixel_data rng_seed
                      (props', residuals', total_pixels)))"

text \<open>
  A channel of 65536 by 52866 pixels, every pixel with the residual 7 of the one
  predictor and a vector of two properties, gathered with \<open>nb_repeats = 0\<close>.
\<close>

definition wide_channel_pixels :: "(int list \<times> int list) list" where
  "wide_channel_pixels = replicate (65536 * 52866) ([7], [0, 0])"

section \<open>The state of the generator after many steps\<close>

text \<open>
  The generator of \<open>use_sample\<close> is linear over GF(2): its step commutes with the
  bitwise exclusive or of states. A polynomial over GF(2), given by the list of its
  coefficients from the constant term upwards, acts on a state: \<open>act c v\<close> is the sum
  of the states \<open>rng_next ^^ i\<close> of \<open>v\<close> over the coefficients \<open>i\<close> of \<open>c\<close>.
\<close>

definition vxor :: "rng_state \<Rightarrow> rng_state \<Rightarrow> rng_state" where
  "vxor a b = (fst a XOR fst b, snd a XOR snd b)"

fun add_vec_if :: "bool \<Rightarrow> rng_state \<Rightarrow> rng_state \<Rightarrow> rng_state" where
  "add_vec_if True v a = vxor a v"
| "add_vec_if False v a = a"

fun act :: "bool list \<Rightarrow> rng_state \<Rightarrow> rng_state" where
  "act [] v = (0, 0)"
| "act (b # bs) v = add_vec_if b v (rng_next (act bs v))"

text \<open>
  The same on lists of bits, lowest bit first, which the simplifier evaluates by
  structural rewriting: a 64-bit word is a list of 64 bits, a state a pair of them.
\<close>

fun bxor :: "bool \<Rightarrow> bool \<Rightarrow> bool" where
  "bxor True True = False"
| "bxor True False = True"
| "bxor False True = True"
| "bxor False False = False"

fun pxor :: "bool list \<Rightarrow> bool list \<Rightarrow> bool list" where
  "pxor [] ys = ys"
| "pxor (x # xs) [] = x # xs"
| "pxor (x # xs) (y # ys) = bxor x y # pxor xs ys"

fun num_bits :: "num \<Rightarrow> bool list" where
  "num_bits num.One = [True]"
| "num_bits (num.Bit0 n) = False # num_bits n"
| "num_bits (num.Bit1 n) = True # num_bits n"

fun nat_bits :: "nat \<Rightarrow> bool list" where
  "nat_bits n = (if n = 0 then [] else odd n # nat_bits (n div 2))"

declare nat_bits.simps [simp del]

fun fixed :: "nat \<Rightarrow> bool list \<Rightarrow> bool list" where
  "fixed 0 xs = []"
| "fixed (Suc n) [] = False # fixed n []"
| "fixed (Suc n) (x # xs) = x # fixed n xs"

type_synonym bit_state = "bool list \<times> bool list"

definition shl23 :: "bool list \<Rightarrow> bool list" where
  "shl23 xs = take 64 (replicate 23 False @ xs)"

definition shr :: "nat \<Rightarrow> bool list \<Rightarrow> bool list" where
  "shr n xs = drop n xs @ replicate n False"

definition mix_a :: "bool list \<Rightarrow> bool list" where
  "mix_a s1 = pxor s1 (shl23 s1)"

definition mix_b :: "bool list \<Rightarrow> bool list \<Rightarrow> bool list" where
  "mix_b t s0 = pxor t (pxor (pxor s0 (shr 18 t)) (shr 5 s0))"

fun next_bits :: "bit_state \<Rightarrow> bit_state" where
  "next_bits (s1, s0) = (s0, mix_b (mix_a s1) s0)"

fun vxor_bits :: "bit_state \<Rightarrow> bit_state \<Rightarrow> bit_state" where
  "vxor_bits (a, b) (c, d) = (pxor a c, pxor b d)"

fun add_bits_if :: "bool \<Rightarrow> bit_state \<Rightarrow> bit_state \<Rightarrow> bit_state" where
  "add_bits_if True v a = vxor_bits a v"
| "add_bits_if False v a = a"

definition zero_bits :: bit_state where
  "zero_bits = (fixed 64 [], fixed 64 [])"

fun act_bits :: "bool list \<Rightarrow> bit_state \<Rightarrow> bit_state" where
  "act_bits [] v = zero_bits"
| "act_bits (b # bs) v = add_bits_if b v (next_bits (act_bits bs v))"

definition vec :: "nat \<Rightarrow> nat \<Rightarrow> bit_state" where
  "vec a b = (fixed 64 (nat_bits a), fixed 64 (nat_bits b))"

definition seed_bits :: bit_state where
  "seed_bits = vec 0x94D049BB133111EB 0xBF58476D1CE4E5B9"

text \<open>The word of a list of bits, and the state of a pair of lists.\<close>

definition word_of :: "bool list \<Rightarrow> 64 word" where
  "word_of bs = horner_sum of_bool 2 bs"

definition abs_state :: "bit_state \<Rightarrow> rng_state" where
  "abs_state s = (word_of (fst s), word_of (snd s))"

definition wide :: "bit_state \<Rightarrow> bool" where
  "wide s = (length (fst s) = 64 \<and> length (snd s) = 64)"

text \<open>
  \<open>reaches n c a b\<close>: the generator started at the seed is in the state \<open>(a, b)\<close> after
  \<open>n\<close> steps, and the polynomial with the bits of \<open>c\<close> as coefficients takes the seed
  to the same state.
\<close>

definition reaches :: "nat \<Rightarrow> nat \<Rightarrow> nat \<Rightarrow> nat \<Rightarrow> bool" where
  "reaches n c a b =
     (act (nat_bits c) rng_seed = (word_of_nat a, word_of_nat b) \<and>
      (rng_next ^^ n) rng_seed = (word_of_nat a, word_of_nat b))"

text \<open>A result of the loop of GatherTreeData that holds a sample.\<close>

definition has_sample :: "int list list \<times> int list list \<times> nat \<Rightarrow> bool" where
  "has_sample acc = (fst (snd acc) \<noteq> [] \<and> fst (snd acc) ! 0 \<noteq> [])"

section \<open>Properties of the channel iteration\<close>

lemma encode_channels_from_eq:
  "i \<le> length (channel img) \<Longrightarrow>
   encode_channels_from img opts i =
     filter (\<lambda>i. \<not> empty_channel img i)
       (takeWhile (\<lambda>i. \<not> stops_iteration img opts i) [i ..< length (channel img)])"
proof (induction img opts i rule: encode_channels_from.induct)
  case (1 img opts i)
  show ?case
  proof (cases "i < length (channel img)")
    case False
    then show ?thesis by (subst encode_channels_from.simps) simp
  next
    case True
    then have up: "[i ..< length (channel img)] = i # [i + 1 ..< length (channel img)]"
      by (simp add: upt_conv_Cons)
    from True have le: "i + 1 \<le> length (channel img)" by simp
    show ?thesis
    proof (cases "w (channel img ! i) = 0 \<or> h (channel img ! i) = 0")
      case empty: True
      then have "encode_channels_from img opts i =
                 encode_channels_from img opts (i + 1)"
        using True by (subst encode_channels_from.simps) simp
      also have "\<dots> = filter (\<lambda>i. \<not> empty_channel img i)
           (takeWhile (\<lambda>i. \<not> stops_iteration img opts i)
              [i + 1 ..< length (channel img)])"
        using "1.IH"(1) [OF True empty le] .
      finally have eq: "encode_channels_from img opts i =
          filter (\<lambda>i. \<not> empty_channel img i)
           (takeWhile (\<lambda>i. \<not> stops_iteration img opts i)
              [i + 1 ..< length (channel img)])" .
      from empty have e: "empty_channel img i" and s: "\<not> stops_iteration img opts i"
        by (simp_all add: empty_channel_def stops_iteration_def)
      show ?thesis
        unfolding eq up by (simp add: e s)
    next
      case nonempty: False
      show ?thesis
      proof (cases "nb_meta_channels img \<le> i \<and>
                 (max_chan_size opts < w (channel img ! i) \<or>
                  max_chan_size opts < h (channel img ! i))")
        case big: True
        then have "encode_channels_from img opts i = []"
          using True nonempty by (subst encode_channels_from.simps) simp
        moreover from big nonempty have "stops_iteration img opts i"
          by (simp add: empty_channel_def stops_iteration_def)
        ultimately show ?thesis
          unfolding up by simp
      next
        case small: False
        then have "encode_channels_from img opts i =
                   i # encode_channels_from img opts (i + 1)"
          using True nonempty by (subst encode_channels_from.simps) simp
        also have "encode_channels_from img opts (i + 1) =
            filter (\<lambda>i. \<not> empty_channel img i)
              (takeWhile (\<lambda>i. \<not> stops_iteration img opts i)
                 [i + 1 ..< length (channel img)])"
          using "1.IH"(2) [OF True nonempty small le] .
        finally have eq: "encode_channels_from img opts i =
            i # filter (\<lambda>i. \<not> empty_channel img i)
              (takeWhile (\<lambda>i. \<not> stops_iteration img opts i)
                 [i + 1 ..< length (channel img)])" .
        from small nonempty have e: "\<not> empty_channel img i"
          and s: "\<not> stops_iteration img opts i"
          by (simp_all add: empty_channel_def stops_iteration_def)
        show ?thesis
          unfolding eq up by (simp add: e s)
      qed
    qed
  qed
qed

lemma decode_channels_from_eq:
  "decode_channels_from img opts i = encode_channels_from img opts i"
proof (induction img opts i rule: encode_channels_from.induct)
  case (1 img opts i)
  show ?case
    using 1
    by (subst decode_channels_from.simps, subst encode_channels_from.simps)
       (auto simp: Let_def)
qed

lemma decode_num_chans_from_eq:
  "decode_num_chans_from img opts i n =
     n + length (decode_channels_from img opts i)"
proof (induction img opts i n rule: decode_num_chans_from.induct)
  case (1 img opts i n)
  show ?case
    using 1
    by (subst decode_num_chans_from.simps, subst decode_channels_from.simps)
       (auto simp: Let_def)
qed

lemma encode_channels_from_beyond:
  "length (channel img) \<le> i \<Longrightarrow> encode_channels_from img opts i = []"
  by (subst encode_channels_from.simps) simp

text \<open>
  Claim C3. For every image and all options, the encoder's channel loop and the
  decoder's channel loop select the same ordered list of channel indices, and that list
  is the one of the selection rule: from \<open>skipchannels\<close> upward, empty channels skipped,
  iteration stopped (not skipped) at the first channel past the meta channels that is
  too large. The decoder's count \<open>num_chans\<close> is the length of that list.
\<close>

theorem channel_iteration_agrees:
  "encode_channels img opts = decode_channels img opts \<and>
   encode_channels img opts = coded_channels img opts \<and>
   decode_num_chans_from img opts (skipchannels opts) 0 =
     length (encode_channels img opts)"
proof -
  have a: "decode_channels img opts = encode_channels img opts"
    by (simp add: decode_channels_def encode_channels_def decode_channels_from_eq)
  have b: "encode_channels img opts = coded_channels img opts"
  proof (cases "skipchannels opts \<le> length (channel img)")
    case True
    then show ?thesis
      by (simp add: encode_channels_def coded_channels_def encode_channels_from_eq)
  next
    case False
    then show ?thesis
      by (simp add: encode_channels_def coded_channels_def encode_channels_from_beyond)
  qed
  have c: "decode_num_chans_from img opts (skipchannels opts) 0 =
           length (encode_channels img opts)"
    by (simp add: decode_num_chans_from_eq decode_channels_from_eq encode_channels_def)
  from a b c show ?thesis by simp
qed

theorem channel_iteration_agrees_witness:
  "decode_channels example_image example_options = [1] \<and>
   coded_channels example_image example_options = [1]"
proof -
  have e: "encode_channels example_image example_options = [1]"
    by code_simp
  note agree = channel_iteration_agrees [of example_image example_options]
  note d = agree [THEN conjunct1, symmetric]
  note c = agree [THEN conjunct2, THEN conjunct1, symmetric]
  show ?thesis
    unfolding d c e by simp
qed

section \<open>Properties of the entry checks and of LearnTree\<close>

text \<open>
  Claim C9, as the code has it. An image whose error flag is set makes ModularEncode
  return the failure "Invalid image" with nothing encoded, and ModularGenericCompress
  passes that failure on when the image has a width and a height. An image without width
  or without height is not reported: ModularGenericCompress returns success for it at
  once, with nothing encoded, whatever its error flag.
\<close>

theorem invalid_image_outcome:
  "(error img \<longrightarrow>
      ModularEncode encode_body img opts enc = (Failure ''Invalid image'', enc)) \<and>
   (image_w img \<noteq> 0 \<and> image_h img \<noteq> 0 \<and> error img \<longrightarrow>
      ModularGenericCompress encode_body img opts enc = (Failure ''Invalid image'', enc)) \<and>
   (image_w img = 0 \<or> image_h img = 0 \<longrightarrow>
      ModularGenericCompress encode_body img opts enc = (StatusOk, enc))"
  by (simp add: ModularEncode_def ModularGenericCompress_def Let_def)

theorem invalid_image_outcome_witness:
  "ModularEncode encode_one_item flagged_image example_options [] =
     (Failure ''Invalid image'', []) \<and>
   ModularGenericCompress encode_one_item flagged_image example_options [] =
     (Failure ''Invalid image'', []) \<and>
   ModularGenericCompress encode_one_item zero_width_image example_options [] =
     (StatusOk, [])"
proof -
  have f: "error flagged_image" "image_w flagged_image \<noteq> 0" "image_h flagged_image \<noteq> 0"
    by (simp_all add: flagged_image_def)
  have z: "image_w zero_width_image = 0"
    by (simp add: zero_width_image_def)
  show ?thesis
    using invalid_image_outcome [of flagged_image encode_one_item example_options "[]"]
      invalid_image_outcome [of zero_width_image encode_one_item example_options "[]"] f z
    by simp
qed

text \<open>
  The claim as stated fails for an image without width: ModularGenericCompress returns
  success for it, not a failure.
\<close>

theorem zero_width_image_is_not_reported:
  "image_w zero_width_image = 0 \<and>
   fst (ModularGenericCompress encode_one_item zero_width_image example_options []) = StatusOk"
  by (simp add: ModularGenericCompress_def zero_width_image_def)

text \<open>
  Claim C10. Whenever LearnTree is called with no gathered samples (there is no residual
  column, or the first residual column is empty) and at least one candidate predictor,
  it returns a tree of one node, a leaf: \<open>property = -1\<close>, the predictor is the last
  candidate of the list, \<open>predictor_offset = 0\<close> and \<open>multiplier = 1\<close>.
\<close>

theorem learn_tree_without_samples:
  assumes "predictors \<noteq> []" and "residuals = [] \<or> residuals ! 0 = []"
  shows "\<exists>leaf. LearnTree L learn_body predictors props residuals total_pixels opts
                  multiplier_info static_prop_range = Some [leaf] \<and>
           property leaf = - 1 \<and> predictor leaf = last predictors \<and>
           predictor_offset leaf = 0 \<and> multiplier leaf = 1"
  using assms by (auto simp: LearnTree_def Let_def)

theorem learn_tree_without_samples_witness:
  "\<exists>leaf. LearnTree example_layout gradient_leaf_body [Gradient, Weighted] [] [[], []] 0
             example_options
             () [(0, 0), (0, 0)] = Some [leaf] \<and>
          property leaf = - 1 \<and> predictor leaf = Weighted \<and>
          predictor_offset leaf = 0 \<and> multiplier leaf = 1"
  using learn_tree_without_samples [of "[Gradient, Weighted]" "[[], []]" example_layout
      gradient_leaf_body "[]" 0 example_options "()" "[(0, 0), (0, 0)]"]
  by simp

section \<open>Properties of FilterTree\<close>

lemma wf_depth_mono: "wf_depth T d c \<Longrightarrow> d \<le> d' \<Longrightarrow> wf_depth T d' c"
proof (induction d arbitrary: d' c)
  case 0
  then show ?case by (cases d') auto
next
  case (Suc d)
  then obtain e where e: "d' = Suc e" "d \<le> e" by (cases d') auto
  with Suc show ?case by auto
qed

lemma wf_depth_bound: "wf_depth T d c \<Longrightarrow> c < length T"
  by (cases d) auto

lemma wf_depth_inner:
  "wf_depth T d c \<Longrightarrow> property (T ! c) \<noteq> - 1 \<Longrightarrow>
   \<exists>e. d = Suc e \<and> 0 \<le> property (T ! c) \<and> wf_depth T e (lchild (T ! c)) \<and>
       wf_depth T e (rchild (T ! c))"
  by (cases d) auto

lemma static_read: "length s = 2 \<Longrightarrow> 0 \<le> p \<Longrightarrow> p < 2 \<Longrightarrow> (s @ v) ! nat p = s ! nat p"
proof -
  assume "length s = 2" "0 \<le> p" "p < 2"
  then have "nat p < length s" by simp
  then show ?thesis by (simp add: nth_append)
qed

lemma nonstatic_read:
  "length s = 2 \<Longrightarrow> length s' = 2 \<Longrightarrow> 2 \<le> p \<Longrightarrow> (s' @ v) ! nat p = (s @ v) ! nat p"
proof -
  assume a: "length s = 2" "length s' = 2" "2 \<le> p"
  then have "\<not> nat p < length s" "\<not> nat p < length s'" by simp_all
  with a show ?thesis by (simp add: nth_append)
qed

lemma skip_static_wf:
  assumes len: "length s = 2"
  shows "wf_depth T d cur \<Longrightarrow>
    \<exists>c. skip_static T s cur = Some c \<and> wf_depth T d c \<and>
        (property (T ! c) = - 1 \<or> 2 \<le> property (T ! c)) \<and>
        (\<forall>v. tree_descend T (s @ v) c = tree_descend T (s @ v) cur)"
proof (induction d arbitrary: cur)
  case 0
  then show ?case
    by (subst skip_static.simps) (simp add: kNumStaticProperties_def)
next
  case (Suc d)
  from Suc.prems have b: "cur < length T" by simp
  show ?case
  proof (cases "property (T ! cur) < 2 \<and> property (T ! cur) \<noteq> - 1")
    case False
    then have "skip_static T s cur = Some cur"
      using b by (subst skip_static.simps) (auto simp: kNumStaticProperties_def)
    with False Suc.prems show ?thesis by auto
  next
    case True
    with Suc.prems have p: "0 \<le> property (T ! cur)"
      and l: "wf_depth T d (lchild (T ! cur))" and r: "wf_depth T d (rchild (T ! cur))"
      by auto
    let ?next = "if splitval (T ! cur) < s ! nat (property (T ! cur))
                 then lchild (T ! cur) else rchild (T ! cur)"
    have sk: "skip_static T s cur = skip_static T s ?next"
      using b True p by (subst skip_static.simps) (simp add: kNumStaticProperties_def)
    have de: "tree_descend T (s @ v) cur = tree_descend T (s @ v) ?next" for v
      using b True p static_read [OF len, of "property (T ! cur)" v]
      by (subst tree_descend.simps) simp
    have "wf_depth T d ?next" using l r by simp
    from Suc.IH [OF this] obtain c where c: "skip_static T s ?next = Some c"
      "wf_depth T d c" "property (T ! c) = - 1 \<or> 2 \<le> property (T ! c)"
      "\<forall>v. tree_descend T (s @ v) c = tree_descend T (s @ v) ?next"
      by blast
    from c(2) have "wf_depth T (Suc d) c" by (rule wf_depth_mono) simp
    with c sk de show ?thesis by auto
  qed
qed

lemma tree_descend_total:
  "wf_depth T d cur \<Longrightarrow> \<exists>r. tree_descend T p cur = Some r"
proof (induction d arbitrary: cur)
  case 0
  then show ?case by (subst tree_descend.simps) simp
next
  case (Suc d)
  show ?case
  proof (cases "property (T ! cur) = - 1")
    case True
    with Suc.prems show ?thesis by (subst tree_descend.simps) simp
  next
    case False
    with Suc.prems have b: "cur < length T" and p: "0 \<le> property (T ! cur)"
      and l: "wf_depth T d (lchild (T ! cur))" and r: "wf_depth T d (rchild (T ! cur))"
      by auto
    from Suc.IH [OF l] Suc.IH [OF r] b p False show ?thesis
      by (subst tree_descend.simps) auto
  qed
qed

lemma filter_child_wf:
  assumes len: "length s = 2" and wf: "wf_depth T d start"
  shows "\<exists>p sv a b n'. filter_child T s start n = Some (p, sv, [a, b], n') \<and>
           wf_depth T d a \<and> wf_depth T d b \<and> (p = 0 \<or> 2 \<le> p) \<and>
           (\<forall>v s'. length s' = 2 \<longrightarrow>
              tree_descend T (s @ v) (if sv < (s' @ v) ! nat p then a else b) =
              tree_descend T (s @ v) start)"
proof -
  from skip_static_wf [OF len wf] obtain c where c: "skip_static T s start = Some c"
      "wf_depth T d c" "property (T ! c) = - 1 \<or> 2 \<le> property (T ! c)"
      "\<forall>v. tree_descend T (s @ v) c = tree_descend T (s @ v) start"
    by blast
  show ?thesis
  proof (cases "property (T ! c) = - 1")
    case True
    with c show ?thesis by (simp add: filter_child_def)
  next
    case False
    from wf_depth_inner [OF c(2) False] obtain e where e: "d = Suc e"
      "wf_depth T e (lchild (T ! c))" "wf_depth T e (rchild (T ! c))" by blast
    have l: "wf_depth T d (lchild (T ! c))"
      using e(2) by (rule wf_depth_mono) (simp add: e(1))
    have r: "wf_depth T d (rchild (T ! c))"
      using e(3) by (rule wf_depth_mono) (simp add: e(1))
    from False c(3) have p2: "2 \<le> property (T ! c)" by simp
    have b: "c < length T" using c(2) by (rule wf_depth_bound)
    have "tree_descend T (s @ v)
            (if splitval (T ! c) < (s' @ v) ! nat (property (T ! c))
             then lchild (T ! c) else rchild (T ! c)) =
          tree_descend T (s @ v) start" if s': "length s' = 2" for v s'
    proof -
      have "tree_descend T (s @ v) c =
            tree_descend T (s @ v)
              (if splitval (T ! c) < (s @ v) ! nat (property (T ! c))
               then lchild (T ! c) else rchild (T ! c))"
        using b False p2 by (subst tree_descend.simps) simp
      with c(4) nonstatic_read [OF len s' p2, of v] show ?thesis by simp
    qed
    with c(1) False l r p2 show ?thesis by (simp add: filter_child_def)
  qed
qed


lemma flat_lookup_leaf:
  "at < length F \<Longrightarrow> property0 (F ! at) = - 1 \<Longrightarrow>
   flat_lookup F P at =
     Some (childID (F ! at), predictor (F ! at), predictor_offset (F ! at),
           multiplier (F ! at))"
  by (subst flat_lookup.simps) simp

lemma flat_lookup_inner:
  "at < length F \<Longrightarrow> property0 (F ! at) \<noteq> - 1 \<Longrightarrow>
   flat_lookup F P at =
     flat_lookup F P
       (childID (F ! at) +
        (if splitval0 (F ! at) < P ! nat (property0 (F ! at))
         then (if fst (splitvals (F ! at)) < P ! nat (fst (properties (F ! at)))
               then 0 else 1)
         else (if snd (splitvals (F ! at)) < P ! nat (snd (properties (F ! at)))
               then 2 else 3)))"
  by (subst flat_lookup.simps) simp

lemma tree_descend_leaf:
  "cur < length T \<Longrightarrow> property (T ! cur) = - 1 \<Longrightarrow>
   tree_descend T P cur =
     Some (lchild (T ! cur), predictor (T ! cur), predictor_offset (T ! cur),
           multiplier (T ! cur))"
  by (subst tree_descend.simps) simp

lemma tree_descend_inner:
  "cur < length T \<Longrightarrow> 0 \<le> property (T ! cur) \<Longrightarrow>
   tree_descend T P cur =
     tree_descend T P
       (if splitval (T ! cur) < P ! nat (property (T ! cur))
        then lchild (T ! cur) else rchild (T ! cur))"
  by (subst tree_descend.simps) simp

lemma pow5_step: "4 * (5::nat) ^ e < 5 ^ Suc e"
  by simp

lemma filter_loop_correct:
  assumes len: "length s = 2"
  shows "list_all2 (wf_depth T) ds (nodes st) \<Longrightarrow>
     \<exists>fin ext. filter_loop T s st = Some fin \<and> flat_out fin = flat_out st @ ext \<and>
        length (nodes st) \<le> length ext \<and>
        (\<forall>i < length (nodes st). \<forall>v s'. length s' = 2 \<longrightarrow>
           flat_lookup (flat_out fin) (s' @ v) (length (flat_out st) + i) =
           tree_descend T (s @ v) (nodes st ! i)) \<and>
        (\<forall>k < length ext. property0 (ext ! k) \<noteq> - 1 \<longrightarrow>
           length (flat_out st) + k < childID (ext ! k) \<and>
           childID (ext ! k) + 3 < length (flat_out st) + length ext)"
proof (induction "sum_list (map (\<lambda>d. (5::nat) ^ d) ds)" arbitrary: ds st rule: less_induct)
  case less
  show ?case
  proof (cases "nodes st")
    case Nil
    then have "filter_loop T s st = Some st"
      by (subst filter_loop.simps) simp
    with Nil show ?thesis by simp
  next
    case (Cons c0 rest)
    with less.prems obtain d0 drest where ds: "ds = d0 # drest"
      and wf0: "wf_depth T d0 c0" and wfr: "list_all2 (wf_depth T) drest rest"
      by (auto simp: list_all2_Cons2)
    let ?out = "flat_out st"
    from skip_static_wf [OF len wf0] obtain c where c: "skip_static T s c0 = Some c"
      "wf_depth T d0 c" "property (T ! c) = - 1 \<or> 2 \<le> property (T ! c)"
      "\<forall>v. tree_descend T (s @ v) c = tree_descend T (s @ v) c0"
      by blast
    have cb: "c < length T" using c(2) by (rule wf_depth_bound)
    have unfold: "filter_loop T s st =
        (case filter_node T s c0 (st\<lparr>nodes := rest\<rparr>) of
           None \<Rightarrow> None | Some st' \<Rightarrow> filter_loop T s st')"
      using Cons by (subst filter_loop.simps) simp
    show ?thesis
    proof (cases "property (T ! c) = - 1")
      case True
      let ?leaf = "flat_leaf (T ! c)"
      obtain st2 where fn: "filter_node T s c0 (st\<lparr>nodes := rest\<rparr>) = Some st2"
        and n2: "nodes st2 = rest" and o2: "flat_out st2 = ?out @ [?leaf]"
        using c(1) True by (simp add: filter_node_def)
      have m: "sum_list (map (\<lambda>d. (5::nat) ^ d) drest) < sum_list (map (\<lambda>d. (5::nat) ^ d) ds)"
        by (simp add: ds)
      from wfr n2 have "list_all2 (wf_depth T) drest (nodes st2)" by simp
      from less.hyps [OF m this] obtain fin ext2 where
        l2: "filter_loop T s st2 = Some fin" and
        e2: "flat_out fin = flat_out st2 @ ext2" and
        le2: "length (nodes st2) \<le> length ext2" and
        lk2: "\<forall>i < length (nodes st2). \<forall>v s'. length s' = 2 \<longrightarrow>
           flat_lookup (flat_out fin) (s' @ v) (length (flat_out st2) + i) =
           tree_descend T (s @ v) (nodes st2 ! i)" and
        or2: "\<forall>k < length ext2. property0 (ext2 ! k) \<noteq> - 1 \<longrightarrow>
           length (flat_out st2) + k < childID (ext2 ! k) \<and>
           childID (ext2 ! k) + 3 < length (flat_out st2) + length ext2"
        by blast
      have a: "filter_loop T s st = Some fin" using unfold fn l2 by simp
      have b: "flat_out fin = ?out @ (?leaf # ext2)" using e2 o2 by simp
      have cc: "length (nodes st) \<le> length (?leaf # ext2)" using le2 n2 Cons by simp
      have d: "flat_lookup (flat_out fin) (s' @ v) (length ?out + i) =
               tree_descend T (s @ v) (nodes st ! i)"
        if i: "i < length (nodes st)" and s': "length s' = 2" for i v s'
      proof (cases i)
        case 0
        have "flat_lookup (flat_out fin) (s' @ v) (length ?out) =
              Some (childID ?leaf, predictor ?leaf, predictor_offset ?leaf, multiplier ?leaf)"
          using flat_lookup_leaf [of "length ?out" "flat_out fin" "s' @ v"]
          by (simp add: b flat_leaf_def)
        also have "\<dots> = tree_descend T (s @ v) c"
          using tree_descend_leaf [OF cb True, of "s @ v"] by (simp add: flat_leaf_def)
        also have "\<dots> = tree_descend T (s @ v) c0" using c(4) by simp
        finally show ?thesis using 0 Cons by simp
      next
        case (Suc j)
        with i Cons n2 have "j < length (nodes st2)" by simp
        from lk2 [rule_format, OF this s', of v] show ?thesis
          using Suc Cons n2 o2 by simp
      qed
      have e: "length ?out + k < childID ((?leaf # ext2) ! k) \<and>
               childID ((?leaf # ext2) ! k) + 3 < length ?out + length (?leaf # ext2)"
        if k: "k < length (?leaf # ext2)" and p: "property0 ((?leaf # ext2) ! k) \<noteq> - 1" for k
      proof (cases k)
        case 0
        with p show ?thesis by (simp add: flat_leaf_def)
      next
        case (Suc j)
        with k p have "j < length ext2" "property0 (ext2 ! j) \<noteq> - 1" by simp_all
        from or2 [rule_format, OF this] show ?thesis using Suc o2 by simp
      qed
      from a b cc d e show ?thesis by blast
    next
      case False
      with c(3) have p2: "2 \<le> property (T ! c)" by simp
      from wf_depth_inner [OF c(2) False] obtain e where e: "d0 = Suc e"
        "wf_depth T e (lchild (T ! c))" "wf_depth T e (rchild (T ! c))" by blast
      let ?n0 = "max (nat (property (T ! c) + 1)) (num_props st)"
      from filter_child_wf [OF len e(2), of ?n0] obtain p0 s0 a0 b0 n0 where
        f0: "filter_child T s (lchild (T ! c)) ?n0 = Some (p0, s0, [a0, b0], n0)" and
        w0: "wf_depth T e a0" "wf_depth T e b0" and
        t0: "\<forall>v s'. length s' = 2 \<longrightarrow>
              tree_descend T (s @ v) (if s0 < (s' @ v) ! nat p0 then a0 else b0) =
              tree_descend T (s @ v) (lchild (T ! c))"
        by blast
      from filter_child_wf [OF len e(3), of n0] obtain p1 s1 a1 b1 n1 where
        f1: "filter_child T s (rchild (T ! c)) n0 = Some (p1, s1, [a1, b1], n1)" and
        w1: "wf_depth T e a1" "wf_depth T e b1" and
        t1: "\<forall>v s'. length s' = 2 \<longrightarrow>
              tree_descend T (s @ v) (if s1 < (s' @ v) ! nat p1 then a1 else b1) =
              tree_descend T (s @ v) (rchild (T ! c))"
        by blast
      let ?flat = "flat_unassigned\<lparr>childID := length ?out + length rest + 1,
                     property0 := property (T ! c), splitval0 := splitval (T ! c),
                     properties := (p0, p1), splitvals := (s0, s1)\<rparr>"
      obtain st2 where fn: "filter_node T s c0 (st\<lparr>nodes := rest\<rparr>) = Some st2"
        and n2: "nodes st2 = rest @ [a0, b0, a1, b1]" and o2: "flat_out st2 = ?out @ [?flat]"
        using c(1) False f0 f1 by (simp add: filter_node_def)
      let ?ds2 = "drest @ [e, e, e, e]"
      have m: "sum_list (map (\<lambda>d. (5::nat) ^ d) ?ds2) < sum_list (map (\<lambda>d. (5::nat) ^ d) ds)"
        using pow5_step [of e] by (simp add: ds e(1))
      have "list_all2 (wf_depth T) ?ds2 (nodes st2)"
        unfolding n2 using wfr w0 w1 by (intro list_all2_appendI) simp_all
      from less.hyps [OF m this] obtain fin ext2 where
        l2: "filter_loop T s st2 = Some fin" and
        e2: "flat_out fin = flat_out st2 @ ext2" and
        le2: "length (nodes st2) \<le> length ext2" and
        lk2: "\<forall>i < length (nodes st2). \<forall>v s'. length s' = 2 \<longrightarrow>
           flat_lookup (flat_out fin) (s' @ v) (length (flat_out st2) + i) =
           tree_descend T (s @ v) (nodes st2 ! i)" and
        or2: "\<forall>k < length ext2. property0 (ext2 ! k) \<noteq> - 1 \<longrightarrow>
           length (flat_out st2) + k < childID (ext2 ! k) \<and>
           childID (ext2 ! k) + 3 < length (flat_out st2) + length ext2"
        by blast
      have a: "filter_loop T s st = Some fin" using unfold fn l2 by simp
      have b: "flat_out fin = ?out @ (?flat # ext2)" using e2 o2 by simp
      have cc: "length (nodes st) \<le> length (?flat # ext2)" using le2 n2 Cons by simp
      have grand: "flat_lookup (flat_out fin) (s' @ v) (childID ?flat + j) =
                   tree_descend T (s @ v) ([a0, b0, a1, b1] ! j)"
        if j: "j < 4" and s': "length s' = 2" for j v s'
      proof -
        from j have "length rest + j < length (nodes st2)" by (simp add: n2)
        from lk2 [rule_format, OF this s', of v]
        show ?thesis by (simp add: o2 n2 nth_append add.assoc)
      qed
      have d: "flat_lookup (flat_out fin) (s' @ v) (length ?out + i) =
               tree_descend T (s @ v) (nodes st ! i)"
        if i: "i < length (nodes st)" and s': "length s' = 2" for i v s'
      proof (cases i)
        case 0
        have pos: "length ?out < length (flat_out fin)" by (simp add: b)
        have node: "flat_out fin ! length ?out = ?flat" by (simp add: b)
        have rd: "(s' @ v) ! nat (property (T ! c)) = (s @ v) ! nat (property (T ! c))"
          using nonstatic_read [OF len s' p2] .
        have td: "tree_descend T (s @ v) c =
              tree_descend T (s @ v)
                (if splitval (T ! c) < (s @ v) ! nat (property (T ! c))
                 then lchild (T ! c) else rchild (T ! c))"
          using tree_descend_inner [OF cb, of "s @ v"] p2 by simp
        have "flat_lookup (flat_out fin) (s' @ v) (length ?out) =
              tree_descend T (s @ v) c"
        proof (cases "splitval (T ! c) < (s @ v) ! nat (property (T ! c))")
          case True
          show ?thesis
          proof (cases "s0 < (s' @ v) ! nat p0")
            case sub: True
            have "flat_lookup (flat_out fin) (s' @ v) (length ?out) =
                  flat_lookup (flat_out fin) (s' @ v) (childID ?flat + 0)"
              using flat_lookup_inner [OF pos, of "s' @ v"] False True sub rd
              by (simp add: node)
            also have "\<dots> = tree_descend T (s @ v) a0"
              using grand [of 0, OF _ s'] by simp
            also have "\<dots> = tree_descend T (s @ v) (lchild (T ! c))"
              using t0 [rule_format, OF s', of v] sub by simp
            finally show ?thesis using td True by simp
          next
            case sub: False
            have "flat_lookup (flat_out fin) (s' @ v) (length ?out) =
                  flat_lookup (flat_out fin) (s' @ v) (childID ?flat + 1)"
              using flat_lookup_inner [OF pos, of "s' @ v"] False True sub rd
              by (simp add: node)
            also have "\<dots> = tree_descend T (s @ v) b0"
              using grand [of 1, OF _ s'] by simp
            also have "\<dots> = tree_descend T (s @ v) (lchild (T ! c))"
              using t0 [rule_format, OF s', of v] sub by simp
            finally show ?thesis using td True by simp
          qed
        next
          case top: False
          show ?thesis
          proof (cases "s1 < (s' @ v) ! nat p1")
            case sub: True
            have "flat_lookup (flat_out fin) (s' @ v) (length ?out) =
                  flat_lookup (flat_out fin) (s' @ v) (childID ?flat + 2)"
              using flat_lookup_inner [OF pos, of "s' @ v"] False top sub rd
              by (simp add: node)
            also have "\<dots> = tree_descend T (s @ v) a1"
              using grand [of 2, OF _ s'] by simp
            also have "\<dots> = tree_descend T (s @ v) (rchild (T ! c))"
              using t1 [rule_format, OF s', of v] sub by simp
            finally show ?thesis using td top by simp
          next
            case sub: False
            have "flat_lookup (flat_out fin) (s' @ v) (length ?out) =
                  flat_lookup (flat_out fin) (s' @ v) (childID ?flat + 3)"
              using flat_lookup_inner [OF pos, of "s' @ v"] False top sub rd
              by (simp add: node)
            also have "\<dots> = tree_descend T (s @ v) b1"
              using grand [of 3, OF _ s'] by simp
            also have "\<dots> = tree_descend T (s @ v) (rchild (T ! c))"
              using t1 [rule_format, OF s', of v] sub by simp
            finally show ?thesis using td top by simp
          qed
        qed
        also have "\<dots> = tree_descend T (s @ v) c0" using c(4) by simp
        finally show ?thesis using 0 Cons by simp
      next
        case (Suc j)
        with i Cons n2 have "j < length (nodes st2)" by simp
        from lk2 [rule_format, OF this s', of v] show ?thesis
          using Suc Cons n2 o2 i by (simp add: nth_append)
      qed
      have ee: "length ?out + k < childID ((?flat # ext2) ! k) \<and>
               childID ((?flat # ext2) ! k) + 3 < length ?out + length (?flat # ext2)"
        if k: "k < length (?flat # ext2)" and p: "property0 ((?flat # ext2) ! k) \<noteq> - 1" for k
      proof (cases k)
        case 0
        with le2 n2 show ?thesis by simp
      next
        case (Suc j)
        with k p have "j < length ext2" "property0 (ext2 ! j) \<noteq> - 1" by simp_all
        from or2 [rule_format, OF this] show ?thesis using Suc o2 by simp
      qed
      from a b cc d ee show ?thesis by blast
    qed
  qed
qed

lemma bit_mark_used:
  "bit (mark_used p u) i \<longleftrightarrow> bit u i \<or> (int kNumStaticProperties \<le> p \<and> i = nat p)"
  by (auto simp: mark_used_def bit_or_iff bit_exp_iff)

lemma decision_properties_leaf:
  "property0 n = - 1 \<Longrightarrow> decision_properties (F @ [n]) = decision_properties F"
  by (auto simp: decision_properties_def)

lemma decision_properties_inner:
  "property0 n \<noteq> - 1 \<Longrightarrow>
   i \<in> decision_properties (F @ [n]) \<longleftrightarrow>
     i \<in> decision_properties F \<or>
     (int kNumStaticProperties \<le> property0 n \<and> i = nat (property0 n)) \<or>
     (int kNumStaticProperties \<le> fst (properties n) \<and> i = nat (fst (properties n))) \<or>
     (int kNumStaticProperties \<le> snd (properties n) \<and> i = nat (snd (properties n)))"
  by (auto simp: decision_properties_def)

lemma leaves_weighted_append:
  "leaves_weighted (F @ [n]) \<longleftrightarrow>
     leaves_weighted F \<and> (property0 n = - 1 \<longrightarrow> predictor n = Weighted)"
  by (auto simp: leaves_weighted_def)

lemma filter_node_flags:
  assumes "filter_node T s c0 st1 = Some st2" and "flags_inv st1"
  shows "flags_inv st2"
proof -
  from assms(1) obtain c where c: "skip_static T s c0 = Some c"
    by (auto simp: filter_node_def split: option.splits)
  show ?thesis
  proof (cases "property (T ! c) = - 1")
    case True
    with assms(1) c have st2: "st2 = st1\<lparr>flat_out := flat_out st1 @ [flat_leaf (T ! c)],
                     use_wp := (if predictor (T ! c) = Weighted then True else use_wp st1),
                     wp_only := (if predictor (T ! c) = Weighted then wp_only st1
                                 else False)\<rparr>"
      by (simp add: filter_node_def)
    have l: "property0 (flat_leaf (T ! c)) = - 1" "predictor (flat_leaf (T ! c)) = predictor (T ! c)"
      by (simp_all add: flat_leaf_def)
    show ?thesis
      using assms(2) unfolding flags_inv_def st2
      by (simp add: leaves_weighted_append decision_properties_leaf l)
  next
    case False
    with assms(1) c obtain p0 s0 push0 n0 p1 s1 push1 n1 where
      st2: "st2 = st1\<lparr>flat_out := flat_out st1 @
                                 [flat_unassigned\<lparr>
                                    childID := length (flat_out st1) + length (nodes st1) + 1,
                                    property0 := property (T ! c),
                                    splitval0 := splitval (T ! c),
                                    properties := (p0, p1), splitvals := (s0, s1)\<rparr>],
                               nodes := nodes st1 @ push0 @ push1,
                               num_props := n1,
                               used_properties :=
                                 mark_used (property (T ! c))
                                   (mark_used p1 (mark_used p0 (used_properties st1)))\<rparr>"
      by (auto simp: filter_node_def split: option.splits prod.splits)
    show ?thesis
      using assms(2) False unfolding flags_inv_def st2
      by (auto simp: leaves_weighted_append decision_properties_inner bit_mark_used)
  qed
qed

lemma filter_loop_flags:
  "filter_loop T s st = Some fin \<Longrightarrow> flags_inv st \<longrightarrow> flags_inv fin"
proof (induction rule: filter_loop.raw_induct [rotated 1, consumes 1])
  case (1 loop T s st fin)
  show ?case
  proof (cases "nodes st")
    case Nil
    with 1(2) show ?thesis by simp
  next
    case (Cons c0 rest)
    with 1(2) obtain st2 where fn: "filter_node T s c0 (st\<lparr>nodes := rest\<rparr>) = Some st2"
      and l: "loop T s st2 = Some fin"
      by (auto split: option.splits)
    show ?thesis
    proof
      assume "flags_inv st"
      then have "flags_inv (st\<lparr>nodes := rest\<rparr>)" by (simp add: flags_inv_def)
      from filter_node_flags [OF fn this] 1(1) [OF l] show "flags_inv fin" by simp
    qed
  qed
qed

lemma used_is_wp_bit:
  assumes "\<forall>i. bit (u::nat) i \<longleftrightarrow> i \<in> D"
  shows "u = push_bit k 1 \<longleftrightarrow> D = {k}"
proof -
  have "u = push_bit k 1 \<longleftrightarrow> (\<forall>i. bit u i \<longleftrightarrow> bit (push_bit k (1::nat)) i)"
    by (simp only: bit_eq_iff [of u]) simp
  also have "\<dots> \<longleftrightarrow> (\<forall>i. bit u i \<longleftrightarrow> i = k)"
    by (simp add: bit_exp_iff)
  finally show ?thesis using assms by auto
qed

lemma FilterTree_total:
  assumes wf: "well_formed T" and len: "length s = kNumStaticProperties"
  shows "\<exists>fin. filter_loop T s filter_init = Some fin \<and> flat_out fin \<noteq> [] \<and>
           (\<forall>v s'. length s' = kNumStaticProperties \<longrightarrow>
              flat_lookup (flat_out fin) (s' @ v) 0 = tree_descend T (s @ v) 0) \<and>
           (\<forall>k < length (flat_out fin). property0 (flat_out fin ! k) \<noteq> - 1 \<longrightarrow>
              k < childID (flat_out fin ! k) \<and>
              childID (flat_out fin ! k) + 3 < length (flat_out fin)) \<and>
           flags_inv fin"
proof -
  from len have len2: "length s = 2" by (simp add: kNumStaticProperties_def)
  have "list_all2 (wf_depth T) [length T] (nodes filter_init)"
    using wf by (simp add: filter_init_def well_formed_def)
  from filter_loop_correct [OF len2 this] obtain fin ext where
    l: "filter_loop T s filter_init = Some fin" and
    e: "flat_out fin = flat_out filter_init @ ext" and
    le: "length (nodes filter_init) \<le> length ext" and
    lk: "\<forall>i < length (nodes filter_init). \<forall>v s'. length s' = 2 \<longrightarrow>
           flat_lookup (flat_out fin) (s' @ v) (length (flat_out filter_init) + i) =
           tree_descend T (s @ v) (nodes filter_init ! i)" and
    or: "\<forall>k < length ext. property0 (ext ! k) \<noteq> - 1 \<longrightarrow>
           length (flat_out filter_init) + k < childID (ext ! k) \<and>
           childID (ext ! k) + 3 < length (flat_out filter_init) + length ext"
    by blast
  have e': "flat_out fin = ext" using e by (simp add: filter_init_def)
  have "flags_inv filter_init"
    by (simp add: flags_inv_def filter_init_def leaves_weighted_def decision_properties_def)
  with filter_loop_flags [OF l] have f: "flags_inv fin" by simp
  have ne: "flat_out fin \<noteq> []" using le e' by (auto simp: filter_init_def)
  have lk': "flat_lookup (flat_out fin) (s' @ v) 0 = tree_descend T (s @ v) 0"
    if "length s' = kNumStaticProperties" for v s'
    using lk [rule_format, of 0 s' v] that
    by (simp add: filter_init_def kNumStaticProperties_def)
  from or have or': "\<forall>k < length (flat_out fin). property0 (flat_out fin ! k) \<noteq> - 1 \<longrightarrow>
              k < childID (flat_out fin ! k) \<and>
              childID (flat_out fin ! k) + 3 < length (flat_out fin)"
    by (simp add: e' filter_init_def)
  from l ne lk' or' f show ?thesis by blast
qed

text \<open>
  Claim C2. For every well-formed authoring tree \<open>T\<close>, all values \<open>s\<close> of the static
  properties and every property vector \<open>v\<close>, FilterTree returns a flat tree, and
  descending it with \<open>v\<close> reaches the same leaf (the same context id, predictor,
  predictor offset and multiplier) as naive descent of \<open>T\<close> with \<open>s\<close> followed by
  \<open>v\<close>. The flat lookup indexes the vector by property id like the tree does, so
  \<open>v\<close> stands behind the static slots there too; whatever values \<open>s'\<close> these slots
  hold, the leaf is the same.
\<close>

theorem flattener_equivalence:
  assumes "well_formed T" and "length s = kNumStaticProperties"
    and "length s' = kNumStaticProperties"
  shows "\<exists>F nprops uw wo leaf. FilterTree L T s = Some (F, nprops, uw, wo) \<and>
           tree_descend T (s @ v) 0 = Some leaf \<and> MATreeLookup F (s' @ v) = Some leaf"
proof -
  from FilterTree_total [OF assms(1, 2)] obtain fin where
    l: "filter_loop T s filter_init = Some fin" and
    lk: "\<forall>v s'. length s' = kNumStaticProperties \<longrightarrow>
              flat_lookup (flat_out fin) (s' @ v) 0 = tree_descend T (s @ v) 0"
    by blast
  from assms(1) have "wf_depth T (length T) 0" by (simp add: well_formed_def)
  from tree_descend_total [OF this, of "s @ v"] obtain leaf where
    d: "tree_descend T (s @ v) 0 = Some leaf" by blast
  from lk assms(3) d have "MATreeLookup (flat_out fin) (s' @ v) = Some leaf"
    by (simp add: MATreeLookup_def)
  with l d show ?thesis by (simp add: FilterTree_def)
qed

theorem flattener_equivalence_witness:
  "tree_descend example_tree ([0, 0] @ example_props) 0 = Some (3, Weighted, 0, 1) \<and>
   (\<exists>F nprops uw wo. FilterTree example_layout example_tree [0, 0] = Some (F, nprops, uw, wo) \<and>
      MATreeLookup F ([7, 7] @ example_props) = Some (3, Weighted, 0, 1))"
proof -
  have wf: "well_formed example_tree" by code_simp
  have d: "tree_descend example_tree ([0, 0] @ example_props) 0 = Some (3, Weighted, 0, 1)"
    by (simp add: tree_descend.simps example_tree_def example_props_def decision_node_def
        leaf_node_def)
  have s: "length [0, 0 :: int] = kNumStaticProperties"
    and s': "length [7, 7 :: int] = kNumStaticProperties"
    by (simp_all add: kNumStaticProperties_def)
  from flattener_equivalence [OF wf s s', of example_layout example_props] d
  show ?thesis by auto
qed

text \<open>
  Claim C6, as the code has it. For every well-formed authoring tree (with property ids
  below 31, where the shift that builds \<open>used_properties\<close> is defined) and all static
  property values, FilterTree returns \<open>wp_only = true\<close> exactly when every leaf of the
  flat tree has the Weighted predictor and the properties its decision nodes test are
  exactly the one property of the weighted predictor: there is at least one decision on
  it. A flat tree that is a single Weighted leaf, with no decision at all, gets
  \<open>wp_only = false\<close>.
\<close>

theorem wp_only_characterisation:
  assumes "well_formed T" and "length s = kNumStaticProperties"
    and "\<forall>n \<in> set T. property n < 31"
  shows "\<exists>F nprops uw wo. FilterTree L T s = Some (F, nprops, uw, wo) \<and>
           (wo \<longleftrightarrow> leaves_weighted F \<and> decision_properties F = {kWPProp L})"
proof -
  from FilterTree_total [OF assms(1, 2)] obtain fin where
    l: "filter_loop T s filter_init = Some fin" and f: "flags_inv fin"
    by blast
  from f have u: "\<forall>i. bit (used_properties fin) i \<longleftrightarrow> i \<in> decision_properties (flat_out fin)"
    and wo: "wp_only fin \<longleftrightarrow> leaves_weighted (flat_out fin)"
    by (simp_all add: flags_inv_def)
  from used_is_wp_bit [OF u, of "kWPProp L"] wo l show ?thesis
    by (auto simp: FilterTree_def)
qed

theorem wp_only_characterisation_witness:
  "\<exists>F nprops. FilterTree example_layout example_tree [0, 0] = Some (F, nprops, True, True) \<and>
      leaves_weighted F \<and> decision_properties F = {15}"
proof -
  have wf: "well_formed example_tree" by code_simp
  have s: "length [0, 0 :: int] = kNumStaticProperties"
    by (simp add: kNumStaticProperties_def)
  have p: "\<forall>n \<in> set example_tree. property n < 31"
    by (simp add: example_tree_def decision_node_def leaf_node_def)
  have e: "\<exists>F n. FilterTree example_layout example_tree [0, 0] = Some (F, n, True, True)"
    by (simp add: FilterTree_def filter_loop.simps filter_init_def filter_node_def
        filter_child_def mark_used_def skip_static.simps example_tree_def leaf_node_def
        decision_node_def kNumStaticProperties_def example_layout_def kWPProp_def)
  have k: "kWPProp example_layout = 15"
    by (simp add: kWPProp_def example_layout_def)
  from wp_only_characterisation [OF wf s p, of example_layout] e k
  show ?thesis by auto
qed

text \<open>
  The claim as stated fails for the tree that is a single Weighted leaf: its flat tree is
  that leaf, it has no decision on another property and no other predictor, and
  FilterTree returns \<open>wp_only = false\<close> for it (and \<open>use_wp = true\<close>).
\<close>

theorem single_weighted_leaf_is_not_wp_only:
  "FilterTree example_layout weighted_leaf_tree [0, 0] =
     Some ([flat_leaf (leaf_node Weighted 0 0 1)], 16, True, False) \<and>
   property0 (flat_leaf (leaf_node Weighted 0 0 1)) = - 1 \<and>
   predictor (flat_leaf (leaf_node Weighted 0 0 1)) = Weighted"
  by (simp add: FilterTree_def filter_loop.simps filter_init_def filter_node_def
      skip_static.simps weighted_leaf_tree_def leaf_node_def kNumStaticProperties_def
      example_layout_def kWPProp_def flat_leaf_def)

section \<open>Properties of the range walk\<close>

lemma push_children_append:
  "push_children node cur rest = push_children node cur [] @ rest"
  by (simp add: push_children_def Let_def)

lemma enc_writes_in_range: "writes_in_range enc_write"
  by (simp add: writes_in_range_def enc_write_def kWPPropRange_def)

lemma dec_writes_in_range: "writes_in_range dec_write"
  by (simp add: writes_in_range_def dec_write_def kWPPropRange_def)

lemma fill_entries_ok:
  assumes "writes_in_range wr"
  shows "\<forall>i \<in> set is. - kWPPropRange \<le> i \<and> i < kWPPropRange \<Longrightarrow>
         \<exists>tables'. fill_entries (wr node) is tables = Inr tables'"
proof (induction "is" arbitrary: tables)
  case Nil
  then show ?case by simp
next
  case (Cons i rest)
  then have "- kWPPropRange \<le> i \<and> i < kWPPropRange" by simp
  with assms obtain t1 where t1: "wr node i tables = Inr t1"
    unfolding writes_in_range_def by blast
  from Cons.IH [of t1] Cons.prems obtain t2 where "fill_entries (wr node) rest t1 = Inr t2"
    by auto
  with t1 show ?case by simp
qed

lemma accepted_fill_range:
  "\<not> region_refused cur \<Longrightarrow>
   \<forall>i \<in> set [range_begin cur + 1 .. range_end cur]. - kWPPropRange \<le> i \<and> i < kWPPropRange"
  by (auto simp: region_refused_def kWPPropRange_def)

lemma range_walk_no_table_fault:
  "range_walk leaf_refused wr tree ranges tables = Some res \<Longrightarrow>
   writes_in_range wr \<longrightarrow> res \<noteq> Inl TableWriteOutOfBounds"
proof (induction rule: range_walk.raw_induct [rotated 1, consumes 1])
  case (1 walk leaf_refused wr tree ranges tables res)
  show ?case
  proof
    assume w: "writes_in_range wr"
    show "res \<noteq> Inl TableWriteOutOfBounds"
    proof (cases ranges)
      case Nil
      with 1(2) show ?thesis by auto
    next
      case (Cons cur rest)
      show ?thesis
      proof (cases "region_refused cur")
        case True
        with 1(2) Cons show ?thesis by auto
      next
        case False
        note nr = this
        show ?thesis
        proof (cases "length tree \<le> pos cur")
          case True
          with 1(2) Cons nr show ?thesis by auto
        next
          case inb: False
          show ?thesis
          proof (cases "property0 (tree ! pos cur) = - 1")
            case leaf: True
            show ?thesis
            proof (cases "leaf_refused (tree ! pos cur)")
              case True
              with 1(2) Cons nr inb leaf show ?thesis by auto
            next
              case ok: False
              from fill_entries_ok [OF w accepted_fill_range [OF nr]]
              obtain t1 where t1: "fill_entries (wr (tree ! pos cur))
                  [range_begin cur + 1 .. range_end cur] tables = Inr t1"
                by blast
              with 1(2) Cons nr inb leaf ok have "walk leaf_refused wr tree rest t1 = Some res"
                by simp
              from 1(1) [OF this] w show ?thesis by simp
            qed
          next
            case inner: False
            with 1(2) Cons nr inb have
              "walk leaf_refused wr tree (push_children (tree ! pos cur) cur rest) tables =
                 Some res"
              by simp
            from 1(1) [OF this] w show ?thesis by simp
          qed
        qed
      qed
    qed
  qed
qed

lemma region_below_leaf:
  "region_below tree r r' \<Longrightarrow> region_children tree r = [] \<Longrightarrow> r' = r"
  by (induction rule: region_below.induct) auto

lemma region_below_cases:
  "region_below tree r r' \<longleftrightarrow>
     r' = r \<or> (\<exists>c \<in> set (region_children tree r). region_below tree c r')"
  by (auto intro: region_below.intros elim: region_below.cases)

lemma range_walk_accepts:
  "range_walk leaf_refused wr tree ranges tables = Some res \<Longrightarrow>
   writes_in_range wr \<longrightarrow>
   (\<forall>b t'. res = Inr (b, t') \<longrightarrow>
      (b \<longleftrightarrow> (\<forall>r \<in> set ranges. \<forall>r'. region_below tree r r' \<longrightarrow>
                   region_accepted leaf_refused tree r')))"
proof (induction rule: range_walk.raw_induct [rotated 1, consumes 1])
  case (1 walk leaf_refused wr tree ranges tables res)
  show ?case
  proof (intro impI allI)
    fix b t'
    assume w: "writes_in_range wr" and res: "res = Inr (b, t')"
    let ?all = "\<lambda>rs. \<forall>r \<in> set rs. \<forall>r'. region_below tree r r' \<longrightarrow>
                   region_accepted leaf_refused tree r'"
    show "b \<longleftrightarrow> ?all ranges"
    proof (cases ranges)
      case Nil
      with 1(2) res show ?thesis by auto
    next
      case (Cons cur rest)
      have self: "region_below tree cur cur" by (rule region_below.self)
      show ?thesis
      proof (cases "region_refused cur")
        case True
        with 1(2) Cons res have "\<not> b" by auto
        moreover from True have "\<not> region_accepted leaf_refused tree cur"
          by (simp add: region_accepted_def)
        with self have "\<not> ?all ranges" unfolding Cons by auto
        ultimately show ?thesis by simp
      next
        case False
        note nr = this
        show ?thesis
        proof (cases "length tree \<le> pos cur")
          case True
          with 1(2) Cons nr res show ?thesis by auto
        next
          case inb: False
          show ?thesis
          proof (cases "property0 (tree ! pos cur) = - 1")
            case leaf: True
            then have nochild: "region_children tree cur = []"
              by (simp add: region_children_def)
            show ?thesis
            proof (cases "leaf_refused (tree ! pos cur)")
              case True
              with 1(2) Cons nr inb leaf res have "\<not> b" by auto
              moreover from True leaf have "\<not> region_accepted leaf_refused tree cur"
                by (simp add: region_accepted_def)
              with self have "\<not> ?all ranges" unfolding Cons by auto
              ultimately show ?thesis by simp
            next
              case ok: False
              from fill_entries_ok [OF w accepted_fill_range [OF nr]]
              obtain t1 where t1: "fill_entries (wr (tree ! pos cur))
                  [range_begin cur + 1 .. range_end cur] tables = Inr t1"
                by blast
              with 1(2) Cons nr inb leaf ok have "walk leaf_refused wr tree rest t1 = Some res"
                by simp
              from 1(1) [OF this] w res have ih: "b \<longleftrightarrow> ?all rest" by simp
              have acc: "region_accepted leaf_refused tree cur"
                using nr inb ok by (simp add: region_accepted_def)
              have "(\<forall>r'. region_below tree cur r' \<longrightarrow> region_accepted leaf_refused tree r')"
                using region_below_leaf [OF _ nochild] acc by auto
              with ih show ?thesis unfolding Cons by simp
            qed
          next
            case inner: False
            then have ch: "region_children tree cur = push_children (tree ! pos cur) cur []"
              using inb by (simp add: region_children_def)
            from inner 1(2) Cons nr inb have
              "walk leaf_refused wr tree (push_children (tree ! pos cur) cur rest) tables =
                 Some res"
              by simp
            from 1(1) [OF this] w res
            have ih: "b \<longleftrightarrow> ?all (push_children (tree ! pos cur) cur rest)" by simp
            have acc: "region_accepted leaf_refused tree cur"
              using nr inb inner by (simp add: region_accepted_def)
            have "?all (push_children (tree ! pos cur) cur rest) \<longleftrightarrow>
                  ?all (region_children tree cur) \<and> ?all rest"
              by (subst push_children_append) (auto simp: ch)
            also have "?all (region_children tree cur) \<longleftrightarrow>
                  (\<forall>r'. region_below tree cur r' \<longrightarrow> region_accepted leaf_refused tree r')"
              using acc by (subst (2) region_below_cases) auto
            finally show ?thesis using ih unfolding Cons by simp
          qed
        qed
      qed
    qed
  qed
qed

lemma push_children_pos:
  "r \<in> set (push_children node cur []) \<Longrightarrow>
   childID node \<le> pos r \<and> pos r \<le> childID node + 3"
  by (auto simp: push_children_def Let_def split: if_splits)

lemma push_children_length: "length (push_children node cur []) \<le> 4"
  by (simp add: push_children_def Let_def)

lemma push_children_end:
  "c \<in> set (push_children node cur []) \<Longrightarrow>
   range_end c = range_end cur \<or>
   (\<exists>c' \<in> set (push_children node cur []). range_begin c' = range_end c)"
  by (auto simp: push_children_def Let_def split: if_splits)

lemma push_children_cover:
  "range_begin cur < x \<Longrightarrow> x \<le> range_end cur \<Longrightarrow>
   \<exists>c \<in> set (push_children node cur []). range_begin c < x \<and> x \<le> range_end c"
  by (auto simp: push_children_def Let_def)

lemma sum_list_le_length_times:
  "\<forall>x \<in> set xs. f x \<le> (m::nat) \<Longrightarrow> sum_list (map f xs) \<le> length xs * m"
  by (induction xs) auto

lemma region_children_pos:
  assumes "flat_ordered F" and "pos cur < length F" and "c \<in> set (region_children F cur)"
  shows "pos cur < pos c \<and> pos c < length F"
proof -
  from assms(3) have inner: "property0 (F ! pos cur) \<noteq> - 1"
    and c: "c \<in> set (push_children (F ! pos cur) cur [])"
    by (auto simp: region_children_def split: if_splits)
  from assms(1, 2) inner have "pos cur < childID (F ! pos cur)"
    "childID (F ! pos cur) + 3 < length F"
    by (auto simp: flat_ordered_def)
  with push_children_pos [OF c] show ?thesis by simp
qed

lemma region_below_pos:
  assumes "flat_ordered F"
  shows "region_below F a r \<Longrightarrow> pos a < length F \<Longrightarrow> pos r < length F"
proof (induction rule: region_below.induct)
  case (self r)
  then show ?case .
next
  case (step c r r')
  from region_children_pos [OF assms step.prems step.hyps(1)] step.IH show ?case by simp
qed

lemma range_walk_terminates:
  assumes ord: "flat_ordered F" and w: "writes_in_range wr"
  shows "\<forall>r \<in> set ranges. pos r < length F \<Longrightarrow>
         \<exists>res. range_walk leaf_refused wr F ranges tables = Some res \<and>
               res \<noteq> Inl TreeReadOutOfBounds"
proof (induction "sum_list (map (\<lambda>r. (5::nat) ^ (length F - pos r)) ranges)"
       arbitrary: ranges tables rule: less_induct)
  case less
  let ?wt = "\<lambda>r. (5::nat) ^ (length F - pos r)"
  show ?case
  proof (cases ranges)
    case Nil
    then show ?thesis by (subst range_walk.simps) simp
  next
    case (Cons cur rest)
    with less.prems have inb: "pos cur < length F" and restb: "\<forall>r \<in> set rest. pos r < length F"
      by simp_all
    show ?thesis
    proof (cases "region_refused cur")
      case True
      with Cons show ?thesis by (subst range_walk.simps) simp
    next
      case nr: False
      show ?thesis
      proof (cases "property0 (F ! pos cur) = - 1")
        case leaf: True
        show ?thesis
        proof (cases "leaf_refused (F ! pos cur)")
          case True
          with Cons nr inb leaf show ?thesis by (subst range_walk.simps) simp
        next
          case ok: False
          show ?thesis
          proof (cases "fill_entries (wr (F ! pos cur))
                          [range_begin cur + 1 .. range_end cur] tables")
            case (Inl fault)
            with fill_entries_ok [OF w accepted_fill_range [OF nr], of "F ! pos cur" tables]
            show ?thesis by simp
          next
            case (Inr t1)
            have m: "sum_list (map ?wt rest) < sum_list (map ?wt ranges)"
              by (simp add: Cons)
            from less.hyps [OF m restb, of t1] obtain res where
              "range_walk leaf_refused wr F rest t1 = Some res" "res \<noteq> Inl TreeReadOutOfBounds"
              by blast
            moreover have "range_walk leaf_refused wr F ranges tables =
                           range_walk leaf_refused wr F rest t1"
              using Cons nr inb leaf ok Inr by (subst range_walk.simps) simp
            ultimately show ?thesis by simp
          qed
        qed
      next
        case inner: False
        let ?ch = "push_children (F ! pos cur) cur []"
        have ch: "region_children F cur = ?ch"
          using inb inner by (simp add: region_children_def)
        have chpos: "\<forall>c \<in> set ?ch. pos cur < pos c \<and> pos c < length F"
          using region_children_pos [OF ord inb] ch by simp
        obtain k where k: "length F - pos cur = Suc k"
          using inb by (cases "length F - pos cur") auto
        have "\<forall>c \<in> set ?ch. ?wt c \<le> 5 ^ k"
        proof
          fix c assume "c \<in> set ?ch"
          with chpos k have "length F - pos c \<le> k" by auto
          then show "?wt c \<le> 5 ^ k"
            by (simp add: power_increasing)
        qed
        from sum_list_le_length_times [OF this]
        have "sum_list (map ?wt ?ch) \<le> length ?ch * 5 ^ k" .
        also have "\<dots> \<le> 4 * 5 ^ k"
          using push_children_length [of "F ! pos cur" cur] by simp
        also have "\<dots> < ?wt cur" by (simp add: k)
        finally have m: "sum_list (map ?wt (push_children (F ! pos cur) cur rest)) <
                         sum_list (map ?wt ranges)"
          by (subst push_children_append) (simp add: Cons)
        have b: "\<forall>r \<in> set (push_children (F ! pos cur) cur rest). pos r < length F"
          using chpos restb by (subst push_children_append) auto
        from less.hyps [OF m b, of tables] obtain res where
          "range_walk leaf_refused wr F (push_children (F ! pos cur) cur rest) tables = Some res"
          "res \<noteq> Inl TreeReadOutOfBounds"
          by blast
        moreover have "range_walk leaf_refused wr F ranges tables =
            range_walk leaf_refused wr F (push_children (F ! pos cur) cur rest) tables"
          using Cons nr inb inner by (subst range_walk.simps) simp
        ultimately show ?thesis by simp
      qed
    qed
  qed
qed


lemma region_below_child:
  "region_below F a r \<Longrightarrow> c \<in> set (region_children F r) \<Longrightarrow> region_below F a c"
proof (induction rule: region_below.induct)
  case (self r)
  then show ?case by (auto intro: region_below.intros)
next
  case (step c' r r')
  then show ?case by (auto intro: region_below.intros)
qed

lemma walk_region_end:
  "walk_region F r \<Longrightarrow>
   range_end r = kWPPropRange - 1 \<or> (\<exists>r'. walk_region F r' \<and> range_begin r' = range_end r)"
proof -
  let ?Q = "\<lambda>x. range_end x = kWPPropRange - 1 \<or>
                 (\<exists>r'. walk_region F r' \<and> range_begin r' = range_end x)"
  have gen: "region_below F a r \<Longrightarrow> walk_region F a \<Longrightarrow> ?Q a \<Longrightarrow> ?Q r" for a r
  proof (induction rule: region_below.induct)
    case (self r)
    then show ?case by simp
  next
    case (step c a r')
    from step.hyps(1) have cin: "c \<in> set (push_children (F ! pos a) a [])"
      by (auto simp: region_children_def split: if_splits)
    have sib: "\<And>c'. c' \<in> set (push_children (F ! pos a) a []) \<Longrightarrow> walk_region F c'"
    proof -
      fix c' assume "c' \<in> set (push_children (F ! pos a) a [])"
      with step.hyps(1) have "c' \<in> set (region_children F a)"
        by (auto simp: region_children_def split: if_splits)
      with step.prems(1) show "walk_region F c'"
        unfolding walk_region_def by (rule region_below_child)
    qed
    from push_children_end [OF cin] have "?Q c"
    proof
      assume "range_end c = range_end a"
      with step.prems(2) show ?thesis by simp
    next
      assume "\<exists>c' \<in> set (push_children (F ! pos a) a []). range_begin c' = range_end c"
      with sib show ?thesis by blast
    qed
    with step.IH sib [OF cin] show ?case by simp
  qed
  assume r: "walk_region F r"
  have "?Q root_range" by (simp add: root_range_def)
  moreover have "walk_region F root_range"
    by (simp add: walk_region_def region_below.self)
  ultimately show ?thesis using gen [of root_range r] r by (simp add: walk_region_def)
qed

lemma to_int8_id: "- 128 \<le> x \<Longrightarrow> x \<le> 127 \<Longrightarrow> to_int8 x = x"
  unfolding to_int8_def by (simp add: sint_sbintrunc' signed_take_bit_int_eq_self)

lemma dec_fill:
  assumes off: "\<not> dec_leaf_refused node"
  shows "tables_sized t \<Longrightarrow> \<forall>i \<in> set is. - kWPPropRange \<le> i \<and> i < kWPPropRange \<Longrightarrow>
     \<exists>t'. fill_entries (dec_write node) is t = Inr t' \<and> tables_sized t' \<and>
        (\<forall>j < nat (2 * kWPPropRange).
           (int j - kWPPropRange \<in> set is \<longrightarrow>
              context_lookup t' ! j = childID node mod 2 ^ 8 \<and>
              multipliers t' ! j = multiplier node \<and>
              offsets t' ! j = predictor_offset node) \<and>
           (int j - kWPPropRange \<notin> set is \<longrightarrow>
              context_lookup t' ! j = context_lookup t ! j \<and>
              multipliers t' ! j = multipliers t ! j \<and>
              offsets t' ! j = offsets t ! j))"
proof (induction "is" arbitrary: t)
  case Nil
  then show ?case by simp
next
  case (Cons i rest)
  from off have o8: "to_int8 (predictor_offset node) = predictor_offset node"
    by (simp add: dec_leaf_refused_def to_int8_id)
  from Cons.prems(2) have ir: "- kWPPropRange \<le> i" "i < kWPPropRange" by simp_all
  let ?k = "nat (i + kWPPropRange)"
  let ?t1 = "t\<lparr>context_lookup := (context_lookup t)[?k := childID node mod 2 ^ 8],
               multipliers := (multipliers t)[?k := multiplier node],
               offsets := (offsets t)[?k := predictor_offset node]\<rparr>"
  have w: "dec_write node i t = Inr ?t1"
    using ir by (simp add: dec_write_def o8)
  have s1: "tables_sized ?t1" using Cons.prems(1) by (simp add: tables_sized_def)
  from Cons.prems(2) have "\<forall>i \<in> set rest. - kWPPropRange \<le> i \<and> i < kWPPropRange" by simp
  from Cons.IH [OF s1 this] obtain t' where
    f: "fill_entries (dec_write node) rest ?t1 = Inr t'" and s': "tables_sized t'" and
    e: "\<forall>j < nat (2 * kWPPropRange).
           (int j - kWPPropRange \<in> set rest \<longrightarrow>
              context_lookup t' ! j = childID node mod 2 ^ 8 \<and>
              multipliers t' ! j = multiplier node \<and>
              offsets t' ! j = predictor_offset node) \<and>
           (int j - kWPPropRange \<notin> set rest \<longrightarrow>
              context_lookup t' ! j = context_lookup ?t1 ! j \<and>
              multipliers t' ! j = multipliers ?t1 ! j \<and>
              offsets t' ! j = offsets ?t1 ! j)"
    by blast
  have "fill_entries (dec_write node) (i # rest) t = Inr t'" using w f by simp
  moreover have "(int j - kWPPropRange \<in> set (i # rest) \<longrightarrow>
              context_lookup t' ! j = childID node mod 2 ^ 8 \<and>
              multipliers t' ! j = multiplier node \<and>
              offsets t' ! j = predictor_offset node) \<and>
           (int j - kWPPropRange \<notin> set (i # rest) \<longrightarrow>
              context_lookup t' ! j = context_lookup t ! j \<and>
              multipliers t' ! j = multipliers t ! j \<and>
              offsets t' ! j = offsets t ! j)" if j: "j < nat (2 * kWPPropRange)" for j
  proof (cases "int j - kWPPropRange = i")
    case True
    then have jk: "j = ?k" by simp
    have len: "?k < length (context_lookup t)" "?k < length (multipliers t)"
      "?k < length (offsets t)"
      using Cons.prems(1) ir by (simp_all add: tables_sized_def)
    from e [rule_format, OF j] True len show ?thesis
      by (cases "i \<in> set rest") (simp_all add: jk)
  next
    case False
    then have "j \<noteq> ?k" using ir by auto
    with e [rule_format, OF j] False show ?thesis by simp
  qed
  ultimately show ?case using s' by blast
qed

section \<open>The decoder: table bounds and pixel reconstruction\<close>

lemma flat_ordered_offset_flat: "flat_ordered offset_flat"
  by (auto simp: flat_ordered_def offset_flat_def nth_Cons' flat_leaf_def flat_unassigned_def)

lemma flat_ordered_example_flat: "flat_ordered example_flat"
  by (auto simp: flat_ordered_def example_flat_def nth_Cons' flat_leaf_def flat_unassigned_def)

lemma offset_flat_children:
  "region_children offset_flat root_range = [lower_region, upper_region]"
  "region_children offset_flat lower_region = []"
  "region_children offset_flat upper_region = []"
  by (simp_all add: region_children_def offset_flat_def root_range_def lower_region_def
      upper_region_def push_children_def flat_leaf_def flat_unassigned_def
      kNumStaticProperties_def kWPPropRange_def)

lemma example_flat_children:
  "region_children example_flat root_range = [low_region, middle_region, high_region]"
  "region_children example_flat low_region = []"
  "region_children example_flat middle_region = []"
  "region_children example_flat high_region = []"
  by (simp_all add: region_children_def example_flat_def root_range_def low_region_def
      middle_region_def high_region_def push_children_def flat_leaf_def flat_unassigned_def
      kNumStaticProperties_def kWPPropRange_def)

lemma offset_flat_regions:
  "walk_region offset_flat r \<longleftrightarrow> r = root_range \<or> r = lower_region \<or> r = upper_region"
  unfolding walk_region_def
  by (subst region_below_cases)
     (auto simp: offset_flat_children dest: region_below_leaf intro: region_below.self)

lemma example_flat_regions:
  "walk_region example_flat r \<longleftrightarrow>
     r = root_range \<or> r = low_region \<or> r = middle_region \<or> r = high_region"
  unfolding walk_region_def
  by (subst region_below_cases)
     (auto simp: example_flat_children dest: region_below_leaf intro: region_below.self)

lemma walk_result:
  assumes ord: "flat_ordered F" and ne: "F \<noteq> []" and w: "writes_in_range wr"
  shows "\<exists>b t'. range_walk leaf_refused wr F [root_range] tables = Some (Inr (b, t')) \<and>
           (b \<longleftrightarrow> (\<forall>r. walk_region F r \<longrightarrow> \<not> region_refused r \<and>
                  (property0 (F ! pos r) = - 1 \<longrightarrow> \<not> leaf_refused (F ! pos r))))"
proof -
  have p0: "\<forall>r \<in> set [root_range]. pos r < length F"
    using ne by (simp add: root_range_def)
  from range_walk_terminates [OF ord w p0, of leaf_refused tables] obtain res where
    res: "range_walk leaf_refused wr F [root_range] tables = Some res"
    and nt: "res \<noteq> Inl TreeReadOutOfBounds"
    by blast
  from range_walk_no_table_fault [OF res] w have nw: "res \<noteq> Inl TableWriteOutOfBounds"
    by simp
  from nt nw obtain b t' where bt: "res = Inr (b, t')"
    by (cases res) (auto intro: walk_fault.exhaust)
  from range_walk_accepts [OF res] w bt have
    "b \<longleftrightarrow> (\<forall>r'. region_below F root_range r' \<longrightarrow> region_accepted leaf_refused F r')"
    by simp
  moreover have "pos r' < length F" if "region_below F root_range r'" for r'
    using region_below_pos [OF ord that] ne by (simp add: root_range_def)
  ultimately have "b \<longleftrightarrow> (\<forall>r. walk_region F r \<longrightarrow> \<not> region_refused r \<and>
                  (property0 (F ! pos r) = - 1 \<longrightarrow> \<not> leaf_refused (F ! pos r)))"
    by (auto simp: walk_region_def region_accepted_def)
  with res bt show ?thesis by blast
qed

lemma offset_flat_decodes:
  "\<exists>tables'. decode_is_wp_only offset_flat True = Some (Inr (True, tables'))"
proof -
  have ne: "offset_flat \<noteq> []" by (simp add: offset_flat_def)
  from walk_result [OF flat_ordered_offset_flat ne dec_writes_in_range,
      of dec_leaf_refused zero_tables]
  obtain b t' where
    r: "range_walk dec_leaf_refused dec_write offset_flat [root_range] zero_tables =
          Some (Inr (b, t'))" and
    b: "b \<longleftrightarrow> (\<forall>r. walk_region offset_flat r \<longrightarrow> \<not> region_refused r \<and>
         (property0 (offset_flat ! pos r) = - 1 \<longrightarrow>
            \<not> dec_leaf_refused (offset_flat ! pos r)))"
    by blast
  have "\<not> region_refused r \<and>
         (property0 (offset_flat ! pos r) = - 1 \<longrightarrow>
            \<not> dec_leaf_refused (offset_flat ! pos r))"
    if "walk_region offset_flat r" for r
  proof -
    from that consider "r = root_range" | "r = lower_region" | "r = upper_region"
      by (auto simp: offset_flat_regions)
    then show ?thesis
      by cases
        (simp_all add: region_refused_def root_range_def lower_region_def
          upper_region_def kWPPropRange_def dec_leaf_refused_def offset_flat_def flat_leaf_def
          leaf_node_def flat_unassigned_def)
  qed
  with b r show ?thesis by (simp add: decode_is_wp_only_def)
qed

lemma tables_sized_zero: "tables_sized zero_tables"
  by (simp add: tables_sized_def zero_tables_def)

lemma tracks_without_tables_follow_tree:
  assumes zero: "predict Zero = 0"
    and single: "length tree = 1 \<longrightarrow> property0 (tree ! 0) = - 1"
  shows "decode_pixel L tree False tables props predict symbol =
           specified_pixel tree props predict symbol"
proof (cases "length tree = 1")
  case True
  with single have "MATreeLookup tree props =
      Some (childID (tree ! 0), predictor (tree ! 0), predictor_offset (tree ! 0),
            multiplier (tree ! 0))"
    by (simp add: MATreeLookup_def flat_lookup.simps)
  with True zero show ?thesis
    by (simp add: decode_pixel_def specified_pixel_def zero_leaf_pixel_def
        single_leaf_pixel_def Let_def add.commute)
next
  case False
  then show ?thesis
    by (simp add: decode_pixel_def specified_pixel_def predict_tree_result_def tree_pixel_def
        split: option.splits)
qed

lemma overlap_tree_filtered:
  "FilterTree example_layout overlap_tree [0, 0] = Some (overlap_flat, 16, True, True)"
  by (simp add: FilterTree_def filter_loop.simps filter_init_def filter_node_def
        filter_child_def mark_used_def skip_static.simps overlap_tree_def leaf_node_def
        decision_node_def kNumStaticProperties_def example_layout_def kWPProp_def
        overlap_flat_def flat_leaf_def)

lemma overlap_flat_nodes:
  "length overlap_flat = 5"
  "property0 (overlap_flat ! 0) = 15"
  "property0 (overlap_flat ! Suc 0) = - 1"
  "property0 (overlap_flat ! 2) = - 1"
  "property0 (overlap_flat ! 3) = - 1"
  "\<not> dec_leaf_refused (overlap_flat ! Suc 0)"
  "\<not> dec_leaf_refused (overlap_flat ! 2)"
  "\<not> dec_leaf_refused (overlap_flat ! 3)"
  "push_children (overlap_flat ! 0) root_range [] = [below_region, empty_region, above_region]"
  "cluster_contexts overlap_context_map overlap_flat = overlap_flat"
  by (simp_all add: cluster_contexts_def overlap_context_map_def overlap_flat_def
      flat_leaf_def leaf_node_def flat_unassigned_def
      dec_leaf_refused_def push_children_def root_range_def below_region_def
      empty_region_def above_region_def kNumStaticProperties_def kWPPropRange_def)

lemma overlap_regions:
  "\<not> region_refused root_range" "pos root_range = 0"
  "\<not> region_refused below_region" "pos below_region = 3"
  "range_begin below_region + 1 = - 512" "range_end below_region = 0"
  "\<not> region_refused empty_region" "pos empty_region = 2"
  "[range_begin empty_region + 1 .. range_end empty_region] = []"
  "\<not> region_refused above_region" "pos above_region = Suc 0"
  "range_begin above_region + 1 = - 99" "range_end above_region = 511"
  by (simp_all add: region_refused_def root_range_def below_region_def empty_region_def
      above_region_def kWPPropRange_def)

lemma overlap_flat_tables:
  "\<exists>tables. decode_is_wp_only overlap_flat True = Some (Inr (True, tables)) \<and>
      context_lookup tables ! wp_table_pos (- 50) = 0 \<and>
      multipliers tables ! wp_table_pos (- 50) = 1 \<and>
      offsets tables ! wp_table_pos (- 50) = 10"
proof -
  have in_below: "\<forall>i \<in> set [- 512 .. 0]. - kWPPropRange \<le> i \<and> i < kWPPropRange"
    by (simp add: kWPPropRange_def)
  from dec_fill [OF overlap_flat_nodes(8) tables_sized_zero in_below] obtain t1 where
    f1: "fill_entries (dec_write (overlap_flat ! 3)) [- 512 .. 0] zero_tables = Inr t1" and
    s1: "tables_sized t1"
    by blast
  have in_above: "\<forall>i \<in> set [- 99 .. 511]. - kWPPropRange \<le> i \<and> i < kWPPropRange"
    by (simp add: kWPPropRange_def)
  from dec_fill [OF overlap_flat_nodes(6) s1 in_above] obtain t2 where
    f2: "fill_entries (dec_write (overlap_flat ! Suc 0)) [- 99 .. 511] t1 = Inr t2" and
    e2: "\<forall>j < nat (2 * kWPPropRange).
           (int j - kWPPropRange \<in> set [- 99 .. 511] \<longrightarrow>
              context_lookup t2 ! j = childID (overlap_flat ! Suc 0) mod 2 ^ 8 \<and>
              multipliers t2 ! j = multiplier (overlap_flat ! Suc 0) \<and>
              offsets t2 ! j = predictor_offset (overlap_flat ! Suc 0))"
    by blast
  have w0: "range_walk dec_leaf_refused dec_write overlap_flat [root_range] zero_tables =
      range_walk dec_leaf_refused dec_write overlap_flat
        [below_region, empty_region, above_region] zero_tables"
    by (subst range_walk.simps)
       (simp add: overlap_flat_nodes overlap_regions)
  have w1: "range_walk dec_leaf_refused dec_write overlap_flat
        [below_region, empty_region, above_region] zero_tables =
      range_walk dec_leaf_refused dec_write overlap_flat [empty_region, above_region] t1"
    using f1
    by (subst range_walk.simps)
       (simp add: overlap_flat_nodes overlap_regions del: upto_rec_numeral)
  have w2: "range_walk dec_leaf_refused dec_write overlap_flat [empty_region, above_region] t1 =
      range_walk dec_leaf_refused dec_write overlap_flat [above_region] t1"
    by (subst range_walk.simps)
       (simp add: overlap_flat_nodes overlap_regions del: upto_rec_numeral)
  have w3: "range_walk dec_leaf_refused dec_write overlap_flat [above_region] t1 =
      range_walk dec_leaf_refused dec_write overlap_flat [] t2"
    using f2
    by (subst range_walk.simps)
       (simp add: overlap_flat_nodes overlap_regions del: upto_rec_numeral)
  have w4: "range_walk dec_leaf_refused dec_write overlap_flat [] t2 = Some (Inr (True, t2))"
    by (subst range_walk.simps) simp
  have d: "decode_is_wp_only overlap_flat True = Some (Inr (True, t2))"
    by (simp add: decode_is_wp_only_def w0 w1 w2 w3 w4)
  have p: "wp_table_pos (- 50) = 462"
    by (simp add: wp_table_pos_def kWPPropRange_def)
  from e2 [rule_format, of 462] have
    "context_lookup t2 ! 462 = 0 \<and> multipliers t2 ! 462 = 1 \<and> offsets t2 ! 462 = 10"
    by (simp add: kWPPropRange_def overlap_flat_def flat_leaf_def leaf_node_def
        flat_unassigned_def)
  with d p show ?thesis by simp
qed

text \<open>
  Claim C4. The claim does not hold on the WP fast track: the table of that track holds,
  for a property value, the leaf of the region that the range walk wrote last, and
  when the regions of the walk overlap this is not the leaf the tree selects. For
  \<open>overlap_tree\<close> the walk keeps \<open>is_wp_only\<close>; at the property value -50 the
  tree selects the leaf of context 2 with offset 30, so that for the symbol 4 and the
  prediction 100 the pixel of the claim is \<open>SaturatingAdd(2 * 1, 30 + 100) = 132\<close>,
  while the decoder reads the table entry of the leaf of context 0 with offset 10 and
  reconstructs \<open>SaturatingAdd(2 * 1 + 10, 100) = 112\<close>. The tracks that do not use the
  table reconstruct the pixel of the claim (\<open>tracks_without_tables_follow_tree\<close>).
\<close>

theorem wp_fast_track_decodes_with_other_leaf:
  "decode_channel_pixel example_layout overlap_tree [0, 0] overlap_context_map
     overlap_props pixel_predictions symbol_four = Some 112 \<and>
   specified_channel_pixel example_layout overlap_tree [0, 0] overlap_context_map
     overlap_props pixel_predictions symbol_four = Some 132"
proof -
  note c = overlap_flat_nodes(10)
  have v: "overlap_props ! kWPProp example_layout = - 50"
    by (simp add: overlap_props_def kWPProp_def example_layout_def)
  from overlap_flat_tables obtain tables where
    d: "decode_is_wp_only overlap_flat True = Some (Inr (True, tables))" and
    e: "context_lookup tables ! wp_table_pos (- 50) = 0"
       "multipliers tables ! wp_table_pos (- 50) = 1"
       "offsets tables ! wp_table_pos (- 50) = 10"
    by blast
  have fast: "decode_channel_pixel example_layout overlap_tree [0, 0] overlap_context_map
     overlap_props pixel_predictions symbol_four = Some 112"
    by (simp add: decode_channel_pixel_def overlap_tree_filtered c d decode_pixel_def v e
        wp_fast_pixel_def Let_def pixel_predictions_def symbol_four_def SaturatingAdd_def
        UnpackSigned_def)
  have l: "MATreeLookup overlap_flat overlap_props = Some (2, Weighted, 30, 1)"
    by (simp add: MATreeLookup_def flat_lookup.simps overlap_flat_def overlap_props_def
        flat_leaf_def leaf_node_def flat_unassigned_def)
  have spec: "specified_channel_pixel example_layout overlap_tree [0, 0] overlap_context_map
     overlap_props pixel_predictions symbol_four = Some 132"
    by (simp add: specified_channel_pixel_def overlap_tree_filtered c specified_pixel_def l
        pixel_predictions_def symbol_four_def SaturatingAdd_def UnpackSigned_def)
  from fast spec show ?thesis by simp
qed

text \<open>
  Claim C7. For every flat tree, whatever built it, no step of the decoder's range walk
  writes outside the tables of \<open>2 * kWPPropRange\<close> entries: from every stack of
  regions and every state of the tables, the walk does not end in a write out of bounds
  (a write with an index outside \<open>[0, 2 * kWPPropRange)\<close> is the only way the model
  yields that fault, and a walk that never ends has not made one either). And a region
  whose bounds escape \<open>[-kWPPropRange - 1, kWPPropRange - 1]\<close> disables the fast
  path: when the walk returns with \<open>is_wp_only\<close> still true, every region it came to
  has both bounds in that interval.
\<close>

theorem decoder_walk_stays_in_tables:
  "range_walk dec_leaf_refused dec_write tree ranges tables \<noteq>
     Some (Inl TableWriteOutOfBounds) \<and>
   (decode_is_wp_only tree True = Some (Inr (True, tables')) \<longrightarrow>
      (\<forall>r. walk_region tree r \<longrightarrow>
         - kWPPropRange - 1 \<le> range_begin r \<and> range_begin r \<le> kWPPropRange - 1 \<and>
         - kWPPropRange - 1 \<le> range_end r \<and> range_end r \<le> kWPPropRange - 1))"
proof -
  have a: "range_walk dec_leaf_refused dec_write tree ranges tables \<noteq>
     Some (Inl TableWriteOutOfBounds)"
    using range_walk_no_table_fault [of dec_leaf_refused dec_write tree ranges tables]
      dec_writes_in_range by auto
  have b: "- kWPPropRange - 1 \<le> range_begin r \<and> range_begin r \<le> kWPPropRange - 1 \<and>
         - kWPPropRange - 1 \<le> range_end r \<and> range_end r \<le> kWPPropRange - 1"
    if d: "decode_is_wp_only tree True = Some (Inr (True, tables'))"
      and r: "walk_region tree r" for r
  proof -
    from d have w: "range_walk dec_leaf_refused dec_write tree [root_range] zero_tables =
        Some (Inr (True, tables'))"
      by (simp add: decode_is_wp_only_def)
    from range_walk_accepts [OF w] dec_writes_in_range
    have acc: "\<And>r'. walk_region tree r' \<Longrightarrow> \<not> region_refused r'"
      by (auto simp: walk_region_def region_accepted_def)
    from acc [OF r] have 1: "- kWPPropRange - 1 \<le> range_begin r"
      "range_begin r \<le> kWPPropRange - 1" "range_end r \<le> kWPPropRange - 1"
      by (auto simp: region_refused_def)
    from walk_region_end [OF r] have "- kWPPropRange - 1 \<le> range_end r"
    proof
      assume "range_end r = kWPPropRange - 1"
      then show ?thesis by (simp add: kWPPropRange_def)
    next
      assume "\<exists>r'. walk_region tree r' \<and> range_begin r' = range_end r"
      then obtain r' where "walk_region tree r'" "range_begin r' = range_end r" by blast
      with acc [of r'] show ?thesis by (auto simp: region_refused_def)
    qed
    with 1 show ?thesis by simp
  qed
  from a b show ?thesis by blast
qed

theorem decoder_walk_stays_in_tables_witness:
  "\<exists>tables'. decode_is_wp_only offset_flat True = Some (Inr (True, tables')) \<and>
     walk_region offset_flat lower_region \<and>
     - kWPPropRange - 1 \<le> range_begin lower_region \<and>
     range_begin lower_region \<le> kWPPropRange - 1 \<and>
     - kWPPropRange - 1 \<le> range_end lower_region \<and>
     range_end lower_region \<le> kWPPropRange - 1"
proof -
  from offset_flat_decodes obtain tables' where
    d: "decode_is_wp_only offset_flat True = Some (Inr (True, tables'))" by blast
  have r: "walk_region offset_flat lower_region" by (simp add: offset_flat_regions)
  from decoder_walk_stays_in_tables [of offset_flat "[]" zero_tables tables'] d r
  show ?thesis by blast
qed

section \<open>The encoder: choice of the WP-only path\<close>

lemma enc_leaf_refused_iff:
  "\<not> enc_leaf_refused node \<longleftrightarrow> predictor_offset node = 0 \<and> multiplier node = 1"
  by (auto simp: enc_leaf_refused_def)

text \<open>
  Claim C5, as the code has it. For every well-formed tree (property ids below 31) the
  encoder's check returns, and EncodeModularChannelMAANS takes the WP-only path exactly
  when FilterTree returned \<open>wp_only\<close>, every region of the range walk passes the
  range test (\<open>-kWPPropRange - 1 <= begin < kWPPropRange - 1\<close> and
  \<open>end <= kWPPropRange - 1\<close>), and every leaf the walk comes to has
  \<open>predictor_offset = 0\<close> and \<open>multiplier = 1\<close>.
\<close>

theorem encoder_wp_path:
  assumes "well_formed T" and "length s = kNumStaticProperties"
    and "\<forall>n \<in> set T. property n < 31"
  shows "\<exists>F nprops uw wo b tbl. FilterTree L T s = Some (F, nprops, uw, wo) \<and>
           encode_is_wp_only F wo = Some (Inr (b, tbl)) \<and>
           (b \<longleftrightarrow> wo \<and>
              (\<forall>r. walk_region F r \<longrightarrow> \<not> region_refused r \<and>
                 (property0 (F ! pos r) = - 1 \<longrightarrow>
                    predictor_offset (F ! pos r) = 0 \<and> multiplier (F ! pos r) = 1)))"
proof -
  from FilterTree_total [OF assms(1, 2)] obtain fin where
    l: "filter_loop T s filter_init = Some fin" and ne: "flat_out fin \<noteq> []" and
    ord: "\<forall>k < length (flat_out fin). property0 (flat_out fin ! k) \<noteq> - 1 \<longrightarrow>
              k < childID (flat_out fin ! k) \<and>
              childID (flat_out fin ! k) + 3 < length (flat_out fin)"
    by blast
  let ?F = "flat_out fin"
  from l obtain nprops uw wo where ft: "FilterTree L T s = Some (?F, nprops, uw, wo)"
    by (simp add: FilterTree_def)
  from ord have fo: "flat_ordered ?F" by (simp add: flat_ordered_def)
  show ?thesis
  proof (cases wo)
    case True
    from walk_result [OF fo ne enc_writes_in_range, of enc_leaf_refused
        "replicate (nat (2 * kWPPropRange)) 0"]
    obtain b t' where
      w: "range_walk enc_leaf_refused enc_write ?F [root_range]
         (replicate (nat (2 * kWPPropRange)) 0) = Some (Inr (b, t'))" and
      i: "b \<longleftrightarrow> (\<forall>r. walk_region ?F r \<longrightarrow> \<not> region_refused r \<and>
                  (property0 (?F ! pos r) = - 1 \<longrightarrow> \<not> enc_leaf_refused (?F ! pos r)))"
      by blast
    have e: "encode_is_wp_only ?F wo = Some (Inr (b, t'))"
      using True w by (simp add: encode_is_wp_only_def)
    have "b \<longleftrightarrow> wo \<and>
              (\<forall>r. walk_region ?F r \<longrightarrow> \<not> region_refused r \<and>
                 (property0 (?F ! pos r) = - 1 \<longrightarrow>
                    predictor_offset (?F ! pos r) = 0 \<and> multiplier (?F ! pos r) = 1))"
      using True i by (simp add: enc_leaf_refused_iff)
    with ft e show ?thesis by blast
  next
    case False
    have e: "encode_is_wp_only ?F wo =
        Some (Inr (False, replicate (nat (2 * kWPPropRange)) 0))"
      using False by (simp add: encode_is_wp_only_def)
    have "False \<longleftrightarrow> wo \<and>
              (\<forall>r. walk_region ?F r \<longrightarrow> \<not> region_refused r \<and>
                 (property0 (?F ! pos r) = - 1 \<longrightarrow>
                    predictor_offset (?F ! pos r) = 0 \<and> multiplier (?F ! pos r) = 1))"
      using False by simp
    with ft e show ?thesis by blast
  qed
qed

lemma example_tree_filtered:
  "FilterTree example_layout example_tree [0, 0] = Some (example_flat, 16, True, True)"
  by (simp add: FilterTree_def filter_loop.simps filter_init_def filter_node_def
        filter_child_def mark_used_def skip_static.simps example_tree_def leaf_node_def
        decision_node_def kNumStaticProperties_def example_layout_def kWPProp_def
        example_flat_def flat_leaf_def)

lemma offset_tree_filtered:
  "FilterTree example_layout offset_tree [0, 0] = Some (offset_flat, 16, True, True)"
  by (simp add: FilterTree_def filter_loop.simps filter_init_def filter_node_def
        filter_child_def mark_used_def skip_static.simps offset_tree_def leaf_node_def
        decision_node_def kNumStaticProperties_def example_layout_def kWPProp_def
        offset_flat_def flat_leaf_def)

theorem encoder_wp_path_witness:
  "\<exists>tbl. FilterTree example_layout example_tree [0, 0] = Some (example_flat, 16, True, True) \<and>
      encode_is_wp_only example_flat True = Some (Inr (True, tbl))"
proof -
  have wf: "well_formed example_tree" by code_simp
  have s: "length [0, 0 :: int] = kNumStaticProperties"
    by (simp add: kNumStaticProperties_def)
  have p: "\<forall>n \<in> set example_tree. property n < 31"
    by (simp add: example_tree_def decision_node_def leaf_node_def)
  have ok: "\<not> region_refused r \<and>
         (property0 (example_flat ! pos r) = - 1 \<longrightarrow>
            predictor_offset (example_flat ! pos r) = 0 \<and>
            multiplier (example_flat ! pos r) = 1)"
    if "walk_region example_flat r" for r
  proof -
    from that consider "r = root_range" | "r = low_region" | "r = middle_region"
      | "r = high_region"
      by (auto simp: example_flat_regions)
    then show ?thesis
      by cases
        (simp_all add: region_refused_def root_range_def low_region_def middle_region_def
          high_region_def kWPPropRange_def example_flat_def flat_leaf_def leaf_node_def
          flat_unassigned_def)
  qed
  from encoder_wp_path [OF wf s p, of example_layout] example_tree_filtered ok
  show ?thesis by auto
qed

text \<open>
  The claim as stated fails for leaves with an offset other than 0: the flat tree of
  \<open>offset_tree\<close> is WP-only, its three regions are inside the allowed range, its
  leaves have offset 5 (inside \<open>[-128, 127]\<close>) and multiplier 1, and the encoder does
  not take the WP-only path.
\<close>

theorem offset_leaves_are_refused_by_encoder:
  "FilterTree example_layout offset_tree [0, 0] = Some (offset_flat, 16, True, True) \<and>
   region_children offset_flat root_range = [lower_region, upper_region] \<and>
   region_children offset_flat lower_region = [] \<and>
   region_children offset_flat upper_region = [] \<and>
   map range_begin [root_range, lower_region, upper_region] = [- 513, - 513, 0] \<and>
   map range_end [root_range, lower_region, upper_region] = [511, 0, 511] \<and>
   map predictor_offset (tl offset_flat) = [5, 5, 5, 5] \<and>
   map multiplier (tl offset_flat) = [1, 1, 1, 1] \<and>
   encode_is_wp_only offset_flat True = Some (Inr (False, replicate 1024 0))"
proof -
  have a: "map range_begin [root_range, lower_region, upper_region] = [- 513, - 513, 0]"
    "map range_end [root_range, lower_region, upper_region] = [511, 0, 511]"
    by (simp_all add: root_range_def lower_region_def upper_region_def kWPPropRange_def)
  have b: "map predictor_offset (tl offset_flat) = [5, 5, 5, 5]"
    "map multiplier (tl offset_flat) = [1, 1, 1, 1]"
    by (simp_all add: offset_flat_def flat_leaf_def leaf_node_def flat_unassigned_def)
  have c: "encode_is_wp_only offset_flat True = Some (Inr (False, replicate 1024 0))"
    by (simp add: encode_is_wp_only_def range_walk.simps root_range_def kWPPropRange_def
        region_refused_def offset_flat_def flat_leaf_def leaf_node_def flat_unassigned_def
        push_children_def kNumStaticProperties_def enc_leaf_refused_def)
  from offset_tree_filtered offset_flat_children a b c show ?thesis by simp
qed

section \<open>Properties of the generator\<close>

lemma rng_next_vxor: "rng_next (vxor a b) = vxor (rng_next a) (rng_next b)"
  by (simp add: rng_next_def vxor_def Let_def ac_simps)

lemma rng_next_zero: "rng_next (0, 0) = (0, 0)"
  by (simp add: rng_next_def)

lemma vxor_zero: "vxor (0, 0) v = v"
  by (simp add: vxor_def)

lemma act_next: "act c (rng_next v) = rng_next (act c v)"
proof (induction c)
  case Nil
  show ?case by (simp add: rng_next_zero)
next
  case (Cons b bs)
  then show ?case by (cases b) (simp_all add: rng_next_vxor)
qed

lemma act_funpow: "act c ((rng_next ^^ n) v) = (rng_next ^^ n) (act c v)"
  by (induction n) (simp_all add: act_next)

subsection \<open>Lists of bits and words\<close>

lemma nat_bits_numeral: "nat_bits (numeral k) = num_bits k"
proof (induction k)
  case One
  show ?case by (simp add: nat_bits.simps [of "Suc 0"] nat_bits.simps [of 0])
next
  case (Bit0 k)
  then show ?case by (subst nat_bits.simps) simp
next
  case (Bit1 k)
  then show ?case by (subst nat_bits.simps) simp
qed

lemma fixed_numeral:
  "fixed (numeral k) [] = False # fixed (pred_numeral k) []"
  "fixed (numeral k) (x # xs) = x # fixed (pred_numeral k) xs"
  by (simp_all add: numeral_eq_Suc)

lemma drop_numeral: "drop (numeral k) (x # xs) = drop (pred_numeral k) xs"
  by (simp add: numeral_eq_Suc)

lemma take_numeral: "take (numeral k) (x # xs) = x # take (pred_numeral k) xs"
  by (simp add: numeral_eq_Suc)

lemma replicate_num: "replicate (numeral k) x = x # replicate (pred_numeral k) x"
  by (simp add: numeral_eq_Suc)

lemmas bit_eval = bxor.simps pxor.simps num_bits.simps nat_bits_numeral fixed_numeral
  fixed.simps(1) drop_numeral drop_0 take_numeral take_0 replicate_num replicate_0
  pred_numeral_simps BitM.simps numeral_One [symmetric] append.simps shl23_def shr_def
  mix_a_def mix_b_def next_bits.simps vxor_bits.simps add_bits_if.simps zero_bits_def
  act_bits.simps vec_def seed_bits_def

lemma bit_word_of: "bit (word_of bs) n \<longleftrightarrow> n < 64 \<and> n < length bs \<and> bs ! n"
  by (auto simp: word_of_def bit_horner_sum_bit_word_iff)

lemma length_pxor: "length xs = length ys \<Longrightarrow> length (pxor xs ys) = length xs"
  by (induction xs ys rule: pxor.induct) simp_all

lemma bxor_iff: "bxor x y \<longleftrightarrow> x \<noteq> y"
  by (cases x; cases y) simp_all

lemma nth_pxor:
  "length xs = length ys \<Longrightarrow> n < length xs \<Longrightarrow> pxor xs ys ! n \<longleftrightarrow> xs ! n \<noteq> ys ! n"
proof (induction xs ys arbitrary: n rule: pxor.induct)
  case (3 x xs y ys)
  then show ?case by (cases n) (simp_all add: bxor_iff)
qed simp_all

lemma word_of_pxor:
  "length xs = length ys \<Longrightarrow> word_of (pxor xs ys) = word_of xs XOR word_of ys"
  by (rule bit_word_eqI) (auto simp: bit_word_of bit_xor_iff length_pxor nth_pxor)

lemma length_shl23: "length xs = 64 \<Longrightarrow> length (shl23 xs) = 64"
  by (simp add: shl23_def)

lemma word_of_shl23: "length xs = 64 \<Longrightarrow> word_of (shl23 xs) = push_bit 23 (word_of xs)"
  by (rule bit_word_eqI)
     (auto simp: bit_word_of bit_push_bit_iff shl23_def nth_append)

lemma length_shr: "length xs = 64 \<Longrightarrow> n \<le> 64 \<Longrightarrow> length (shr n xs) = 64"
  by (simp add: shr_def)

lemma word_of_shr:
  "length xs = 64 \<Longrightarrow> n \<le> 64 \<Longrightarrow> word_of (shr n xs) = drop_bit n (word_of xs)"
  by (rule bit_word_eqI)
     (auto simp: bit_word_of bit_drop_bit_eq shr_def nth_append)

lemma next_bits_abs:
  assumes "wide s"
  shows "abs_state (next_bits s) = rng_next (abs_state s)" and "wide (next_bits s)"
proof -
  obtain s1 s0 where s: "s = (s1, s0)" by (cases s)
  with assms have l: "length s1 = 64" "length s0 = 64" by (simp_all add: wide_def)
  have la: "length (mix_a s1) = 64"
    using l by (simp add: mix_a_def length_pxor length_shl23)
  have a: "word_of (mix_a s1) = word_of s1 XOR push_bit 23 (word_of s1)"
    using l by (simp add: mix_a_def word_of_pxor length_shl23 word_of_shl23)
  have lb: "length (mix_b (mix_a s1) s0) = 64"
    using l la by (simp add: mix_b_def length_pxor length_shr)
  have b: "word_of (mix_b (mix_a s1) s0) =
      word_of (mix_a s1) XOR
        (word_of s0 XOR drop_bit 18 (word_of (mix_a s1)) XOR drop_bit 5 (word_of s0))"
    using l la
    by (simp add: mix_b_def word_of_pxor length_pxor length_shr word_of_shr ac_simps)
  show "abs_state (next_bits s) = rng_next (abs_state s)"
    by (simp add: s abs_state_def rng_next_def Let_def a b)
  show "wide (next_bits s)"
    using l lb by (simp add: s wide_def)
qed

lemma vxor_bits_abs:
  assumes "wide x" and "wide y"
  shows "abs_state (vxor_bits x y) = vxor (abs_state x) (abs_state y)"
    and "wide (vxor_bits x y)"
proof -
  obtain a b c d where xy: "x = (a, b)" "y = (c, d)" by (cases x, cases y)
  with assms have l: "length a = 64" "length b = 64" "length c = 64" "length d = 64"
    by (simp_all add: wide_def)
  show "abs_state (vxor_bits x y) = vxor (abs_state x) (abs_state y)"
    using l by (simp add: xy abs_state_def vxor_def word_of_pxor)
  show "wide (vxor_bits x y)"
    using l by (simp add: xy wide_def length_pxor)
qed

lemma length_fixed: "length (fixed n xs) = n"
  by (induction n xs rule: fixed.induct) simp_all

lemma nth_fixed: "i < n \<Longrightarrow> fixed n xs ! i \<longleftrightarrow> i < length xs \<and> xs ! i"
proof (induction n xs arbitrary: i rule: fixed.induct)
  case (2 n)
  then show ?case by (cases i) simp_all
next
  case (3 n x xs)
  then show ?case by (cases i) simp_all
qed simp

lemma zero_bits_abs: "abs_state zero_bits = (0, 0)" "wide zero_bits"
proof -
  have "word_of (fixed 64 []) = 0"
    by (rule bit_word_eqI) (simp add: bit_word_of nth_fixed length_fixed)
  then show "abs_state zero_bits = (0, 0)" by (simp add: abs_state_def zero_bits_def)
  show "wide zero_bits" by (simp add: wide_def zero_bits_def length_fixed)
qed

lemma act_bits_abs:
  assumes "wide v"
  shows "abs_state (act_bits c v) = act c (abs_state v) \<and> wide (act_bits c v)"
proof (induction c)
  case Nil
  show ?case by (simp add: zero_bits_abs)
next
  case (Cons b bs)
  then have n: "abs_state (next_bits (act_bits bs v)) = rng_next (act bs (abs_state v))"
    "wide (next_bits (act_bits bs v))"
    by (simp_all add: next_bits_abs)
  show ?case
  proof (cases b)
    case True
    with n assms show ?thesis by (simp add: vxor_bits_abs)
  next
    case False
    with n show ?thesis by simp
  qed
qed

lemma nth_nat_bits: "(i < length (nat_bits n) \<and> nat_bits n ! i) \<longleftrightarrow> bit n i"
proof (induction n arbitrary: i rule: nat_bits.induct)
  case (1 n)
  show ?case
  proof (cases "n = 0")
    case True
    then show ?thesis by (simp add: nat_bits.simps [of 0])
  next
    case False
    have e: "nat_bits n = odd n # nat_bits (n div 2)"
      using False by (subst nat_bits.simps) simp
    show ?thesis
    proof (cases i)
      case 0
      then show ?thesis by (simp add: e bit_0)
    next
      case (Suc k)
      with 1 [OF False, of k] show ?thesis by (simp add: e bit_Suc)
    qed
  qed
qed

lemma word_of_fixed_nat_bits: "word_of (fixed 64 (nat_bits n)) = word_of_nat n"
  by (rule bit_word_eqI)
     (simp add: bit_word_of length_fixed nth_fixed nth_nat_bits bit_of_nat_iff)

lemma vec_abs: "abs_state (vec a b) = (word_of_nat a, word_of_nat b)" "wide (vec a b)"
  by (simp_all add: abs_state_def vec_def wide_def word_of_fixed_nat_bits length_fixed)

lemma seed_bits_abs: "abs_state seed_bits = rng_seed"
  by (simp add: seed_bits_def vec_abs rng_seed_def)

subsection \<open>Doubling the number of steps\<close>

lemma reaches_start: "reaches 0 1 0x94D049BB133111EB 0xBF58476D1CE4E5B9"
proof -
  have "nat_bits 1 = [True]"
    by (simp add: nat_bits.simps [of "Suc 0"] nat_bits.simps [of 0])
  then show ?thesis
    by (simp add: reaches_def rng_next_zero vxor_zero rng_seed_def)
qed

lemma reaches_even:
  assumes r: "reaches n c a b"
    and m: "m = 2 * n"
    and e1: "act_bits (nat_bits c') seed_bits = vec a' b'"
    and e2: "act_bits (nat_bits c) (vec a b) = vec a' b'"
  shows "reaches m c' a' b'"
proof -
  let ?u = "(word_of_nat a, word_of_nat b) :: rng_state"
  let ?u' = "(word_of_nat a', word_of_nat b') :: rng_state"
  from r have c: "act (nat_bits c) rng_seed = ?u" and n: "(rng_next ^^ n) rng_seed = ?u"
    by (simp_all add: reaches_def)
  have w: "wide seed_bits" by (simp add: seed_bits_def vec_abs)
  from act_bits_abs [OF w, of "nat_bits c'"] e1
  have c': "act (nat_bits c') rng_seed = ?u'"
    by (simp add: seed_bits_abs vec_abs)
  from act_bits_abs [OF vec_abs(2), of "nat_bits c" a b] e2
  have u: "act (nat_bits c) ?u = ?u'" by (simp add: vec_abs)
  have eq: "(rng_next ^^ n) rng_seed = act (nat_bits c) rng_seed" by (simp only: c n)
  have "(rng_next ^^ n) ((rng_next ^^ n) rng_seed) =
          (rng_next ^^ n) (act (nat_bits c) rng_seed)"
    by (simp only: eq)
  also have "\<dots> = act (nat_bits c) ((rng_next ^^ n) rng_seed)"
    by (simp only: act_funpow)
  also have "\<dots> = ?u'" by (simp only: n u)
  finally have "(rng_next ^^ m) rng_seed = ?u'"
    by (simp add: m mult_2 funpow_add)
  with c' show ?thesis by (simp add: reaches_def)
qed

lemma reaches_odd:
  assumes r: "reaches n c a b"
    and m: "m = 2 * n + 1"
    and e1: "act_bits (nat_bits c') seed_bits = vec a' b'"
    and e2: "next_bits (act_bits (nat_bits c) (vec a b)) = vec a' b'"
  shows "reaches m c' a' b'"
proof -
  let ?u = "(word_of_nat a, word_of_nat b) :: rng_state"
  let ?u' = "(word_of_nat a', word_of_nat b') :: rng_state"
  from r have c: "act (nat_bits c) rng_seed = ?u" and n: "(rng_next ^^ n) rng_seed = ?u"
    by (simp_all add: reaches_def)
  have w: "wide seed_bits" by (simp add: seed_bits_def vec_abs)
  from act_bits_abs [OF w, of "nat_bits c'"] e1
  have c': "act (nat_bits c') rng_seed = ?u'"
    by (simp add: seed_bits_abs vec_abs)
  from act_bits_abs [OF vec_abs(2), of "nat_bits c" a b]
  have "abs_state (next_bits (act_bits (nat_bits c) (vec a b))) =
          rng_next (act (nat_bits c) ?u)"
    by (simp add: next_bits_abs vec_abs)
  with e2 have u: "rng_next (act (nat_bits c) ?u) = ?u'" by (simp add: vec_abs)
  have eq: "(rng_next ^^ n) rng_seed = act (nat_bits c) rng_seed" by (simp only: c n)
  have "rng_next ((rng_next ^^ n) ((rng_next ^^ n) rng_seed)) =
          rng_next ((rng_next ^^ n) (act (nat_bits c) rng_seed))"
    by (simp only: eq)
  also have "\<dots> = rng_next (act (nat_bits c) ((rng_next ^^ n) rng_seed))"
    by (simp only: act_funpow)
  also have "\<dots> = ?u'" by (simp only: n u)
  finally have "(rng_next ^^ m) rng_seed = ?u'"
    by (simp add: m mult_2 funpow_add)
  with c' show ?thesis by (simp add: reaches_def)
qed

subsection \<open>The state after 3464599878 steps\<close>

text \<open>
  The binary digits of 3464599878, from the highest: every digit doubles the number of
  steps, a digit 1 adds one step. The polynomials are the powers of the step modulo
  its minimal polynomial on the seed; each lemma checks its polynomial and its state
  against the ones before.
\<close>

lemma reaches_1:
  "reaches 1
     0x2
     0xbf58476d1ce4e5b9 0xf3fb4633e6fe2ad3"
  by (rule reaches_odd [OF reaches_start], simp) (simp_all only: bit_eval)

lemma reaches_2:
  "reaches 3
     0x8
     0xfdb2ab6834eace25 0x10573d97f47a1158"
  by (rule reaches_odd [OF reaches_1], simp) (simp_all only: bit_eval)

lemma reaches_3:
  "reaches 6
     0x40
     0x801b942ab0bc8718 0xd24b0d629d96fe61"
  by (rule reaches_even [OF reaches_2], simp) (simp_all only: bit_eval)

lemma reaches_4:
  "reaches 12
     0x1000
     0xeee162d96a131f4e 0x6298a9541ee40d8d"
  by (rule reaches_even [OF reaches_3], simp) (simp_all only: bit_eval)

lemma reaches_5:
  "reaches 25
     0x2000000
     0xf99476f3f4c2a437 0xf5a4986912760ca1"
  by (rule reaches_odd [OF reaches_4], simp) (simp_all only: bit_eval)

lemma reaches_6:
  "reaches 51
     0x8000000000000
     0x203d1c1c611def69 0xcc03c83ffa8b3f57"
  by (rule reaches_odd [OF reaches_5], simp) (simp_all only: bit_eval)

lemma reaches_7:
  "reaches 103
     0x80000000000000000000000000
     0x3add6ff6f99d19f0 0x4d37bb7b96a66aba"
  by (rule reaches_odd [OF reaches_6], simp) (simp_all only: bit_eval)

lemma reaches_8:
  "reaches 206
     0xb259dfafcc1e03987e28053433f9544f
     0x46d2e5a32cadb478 0xf7aeb33d19bdca82"
  by (rule reaches_even [OF reaches_7], simp) (simp_all only: bit_eval)

lemma reaches_9:
  "reaches 413
     0xb7ccbb6420f93e7d252ef54b8c928e62
     0xb826f1621d0183cc 0x44d667bf658c1efe"
  by (rule reaches_odd [OF reaches_8], simp) (simp_all only: bit_eval)

lemma reaches_10:
  "reaches 826
     0xceb52d12ecb8d8709aad7de00f22f8db
     0x70c361546ce7e4fa 0x9faf028d12fdeace"
  by (rule reaches_even [OF reaches_9], simp) (simp_all only: bit_eval)

lemma reaches_11:
  "reaches 1652
     0x326063fb2262371af104d56e001b36a5
     0xbd80a3f3a887b0cd 0x74cd4afa34d69f3c"
  by (rule reaches_even [OF reaches_10], simp) (simp_all only: bit_eval)

lemma reaches_12:
  "reaches 3304
     0x1dc298485f5f545b022235975feefcb
     0x2f62c473e90aff2a 0x446a36ed2d889510"
  by (rule reaches_even [OF reaches_11], simp) (simp_all only: bit_eval)

lemma reaches_13:
  "reaches 6608
     0xefdae3f4d092c5ddb34231bd6ca1c65c
     0xec55e105c1fcdec8 0x3016daf73940f684"
  by (rule reaches_even [OF reaches_12], simp) (simp_all only: bit_eval)

lemma reaches_14:
  "reaches 13216
     0x1e3f5c84a5eddf944d9092955fc45273
     0xcb469765361d8e71 0x936929fea9a3e335"
  by (rule reaches_even [OF reaches_13], simp) (simp_all only: bit_eval)

lemma reaches_15:
  "reaches 26432
     0x7807c4e943b2abf48fa9e7c8b9b3b0c3
     0x9f7374953271d7f6 0x8a45dfc43919e4f4"
  by (rule reaches_even [OF reaches_14], simp) (simp_all only: bit_eval)

lemma reaches_16:
  "reaches 52865
     0x74fe8e236ec238cac587c92387ba1de
     0xa2da8e7de5b9155a 0x8136b7403b82811c"
  by (rule reaches_odd [OF reaches_15], simp) (simp_all only: bit_eval)

lemma reaches_17:
  "reaches 105731
     0x4b71fefc108b0a5c5c6597ddb74340a3
     0xdfd817e112dab05a 0xa2b79f42b4855f34"
  by (rule reaches_odd [OF reaches_16], simp) (simp_all only: bit_eval)

lemma reaches_18:
  "reaches 211462
     0x9c7501d7e2843a95448c19b420cd11cf
     0x2ac7ea496ca5bbfb 0xc3dbbfe21d1d8b02"
  by (rule reaches_even [OF reaches_17], simp) (simp_all only: bit_eval)

lemma reaches_19:
  "reaches 422924
     0x9587d4a522845ea73c8c6b6bb42bd8bc
     0x4dc1d544453decde 0xd24988ffe3d992f3"
  by (rule reaches_even [OF reaches_18], simp) (simp_all only: bit_eval)

lemma reaches_20:
  "reaches 845849
     0x3c65555faa286e9fcd36258fbbb8973c
     0x4af1508165ae05e0 0xdd2d185b880134b3"
  by (rule reaches_odd [OF reaches_19], simp) (simp_all only: bit_eval)

lemma reaches_21:
  "reaches 1691699
     0x5155f4589a70e78b6f2e5fcc55bdfce4
     0x51342b900daa078c 0x2fad3c5d26235011"
  by (rule reaches_odd [OF reaches_20], simp) (simp_all only: bit_eval)

lemma reaches_22:
  "reaches 3383398
     0x551733351989b814aba881fd29f17ef8
     0x89078d86e74ea84e 0x40da5dfc82179644"
  by (rule reaches_even [OF reaches_21], simp) (simp_all only: bit_eval)

lemma reaches_23:
  "reaches 6766796
     0x6a6b14699abb16b008300a1af760a7d4
     0x11c749c8203386ee 0xc5b3260c32fad49c"
  by (rule reaches_even [OF reaches_22], simp) (simp_all only: bit_eval)

lemma reaches_24:
  "reaches 13533593
     0xb781ec082b4a08751f7fc36fa69e17ab
     0xb4088ff3ac182db8 0x8e177a15c4c8aa22"
  by (rule reaches_odd [OF reaches_23], simp) (simp_all only: bit_eval)

lemma reaches_25:
  "reaches 27067186
     0x9d97aa45b13e452a2bcc1c6df199c323
     0x72f5ad6c496a228c 0xf7d39c7a035611c3"
  by (rule reaches_even [OF reaches_24], simp) (simp_all only: bit_eval)

lemma reaches_26:
  "reaches 54134373
     0x292f60b1af5dad427f0a7ca27e8da449
     0x5059003cd34f8717 0xb471a7672adb3409"
  by (rule reaches_odd [OF reaches_25], simp) (simp_all only: bit_eval)

lemma reaches_27:
  "reaches 108268746
     0xfb3eae9755d96bf4b9f02d3168f7d38
     0x7a446b529ab2bdb6 0x68973304aaec4e79"
  by (rule reaches_even [OF reaches_26], simp) (simp_all only: bit_eval)

lemma reaches_28:
  "reaches 216537492
     0x9958989379aea73bbe7c866144c33e75
     0x250870e0cac7b819 0xa91ff30f912f9024"
  by (rule reaches_even [OF reaches_27], simp) (simp_all only: bit_eval)

lemma reaches_29:
  "reaches 433074984
     0xc7d7118a90737a131792f87c57032741
     0xa4290c39574845a3 0x445dca6ec3cfbfbf"
  by (rule reaches_even [OF reaches_28], simp) (simp_all only: bit_eval)

lemma reaches_30:
  "reaches 866149969
     0xaad5d17bc008ee7b0c413a6a85240b5d
     0xb6ada166f038865e 0x372197ec79ec4801"
  by (rule reaches_odd [OF reaches_29], simp) (simp_all only: bit_eval)

lemma reaches_31:
  "reaches 1732299939
     0x7c90f3c62dc47ab4e08ec1a84361e2e5
     0x7a62e1c6e9723a57 0xd877292fb802fb1b"
  by (rule reaches_odd [OF reaches_30], simp) (simp_all only: bit_eval)

lemma reaches_32:
  "reaches 3464599878
     0xbee51e118de8571aaff91a65966b24dc
     0xaebe91048381046f 0x51416efb9c5206ea"
  by (rule reaches_even [OF reaches_31], simp) (simp_all only: bit_eval)

section \<open>Sampling with a fraction of zero\<close>

lemma reaches_state:
  "(rng_next ^^ 3464599878) rng_seed = (0xaebe91048381046f, 0x51416efb9c5206ea)"
  using reaches_32 by (simp add: reaches_def)

lemma sample_threshold_zero: "sample_threshold (pixel_fraction (0, Suc d) cw ch) = 0"
  by (simp add: sample_threshold_def pixel_fraction_def frac_min_def frac_le_def)

lemma use_sample_after_jump:
  "fst (use_sample 0 ((rng_next ^^ 3464599878) rng_seed))"
proof -
  have "(0xaebe91048381046f + 0x51416efb9c5206ea :: 64 word) = 533924697" by simp
  then show ?thesis by (simp add: use_sample_def reaches_state drop_bit_eq_div)
qed

lemma gather_pixels_append:
  "gather_pixels t (xs @ ys) s acc =
     gather_pixels t ys ((rng_next ^^ length xs) s) (gather_pixels t xs s acc)"
proof (induction t xs s acc rule: gather_pixels.induct)
  case (1 threshold s acc)
  show ?case by simp
next
  case (2 threshold res property_values rest s props residuals total_pixels)
  then show ?case
    by (simp add: use_sample_def funpow_swap1)
qed

lemma fold_push_length:
  "length (fold (\<lambda>i cs. cs[i := cs ! i @ [vals ! i]]) is cols) = length cols"
  by (induction "is" arbitrary: cols) simp_all

lemma fold_push_first:
  "0 \<notin> set is \<Longrightarrow> fold (\<lambda>i cs. cs[i := cs ! i @ [vals ! i]]) is cols ! 0 = cols ! 0"
  by (induction "is" arbitrary: cols) simp_all

lemma push_back_all_length: "length (push_back_all vals cols) = length cols"
  by (simp add: push_back_all_def fold_push_length)

lemma push_back_all_first:
  assumes "cols \<noteq> []"
  shows "push_back_all vals cols ! 0 = (if vals = [] then cols ! 0 else cols ! 0 @ [vals ! 0])"
proof (cases vals)
  case Nil
  then show ?thesis by (simp add: push_back_all_def)
next
  case (Cons v rest)
  have u: "[0 ..< length vals] = 0 # [Suc 0 ..< length vals]"
    by (subst upt_rec) (simp add: Cons)
  have "push_back_all vals cols =
      fold (\<lambda>i cs. cs[i := cs ! i @ [vals ! i]]) [Suc 0 ..< length vals]
        (cols[0 := cols ! 0 @ [vals ! 0]])"
    unfolding push_back_all_def u by simp
  moreover have "fold (\<lambda>i cs. cs[i := cs ! i @ [vals ! i]]) [Suc 0 ..< length vals] cs ! 0 =
      cs ! 0" for cs
    by (rule fold_push_first) simp
  ultimately have "push_back_all vals cols ! 0 = (cols[0 := cols ! 0 @ [vals ! 0]]) ! 0"
    by simp
  with assms Cons show ?thesis by simp
qed

lemma gather_pixels_keeps_columns:
  "length (fst (snd (gather_pixels t xs s (props, residuals, count)))) = length residuals"
  by (induction t xs s "(props, residuals, count)" arbitrary: props residuals count
      rule: gather_pixels.induct)
    (simp_all add: push_back_all_length)

lemma gather_pixels_keeps_sample:
  "has_sample acc \<Longrightarrow> has_sample (gather_pixels t xs s acc)"
proof (induction t xs s acc rule: gather_pixels.induct)
  case (1 threshold s acc)
  then show ?case by simp
next
  case (2 threshold res property_values rest s props residuals total_pixels)
  from 2(3) have "has_sample (push_back_all property_values props,
      push_back_all res residuals, total_pixels + 1)"
    by (auto simp: has_sample_def push_back_all_first dest: arg_cong [of _ _ length]
        simp: push_back_all_length)
  moreover from 2(3) have "has_sample (props, residuals, total_pixels + 1)"
    by (simp add: has_sample_def)
  ultimately show ?case using 2(1, 2) by simp
qed

lemma sample_at_hit:
  assumes k: "length xs = 3464599878" and r: "res \<noteq> []" and c: "residuals \<noteq> []"
  shows "has_sample (gather_pixels 0 (xs @ (res, pv) # ys) rng_seed (props, residuals, count))"
proof -
  obtain props1 residuals1 count1 where
    a: "gather_pixels 0 xs rng_seed (props, residuals, count) = (props1, residuals1, count1)"
    by (cases "gather_pixels 0 xs rng_seed (props, residuals, count)")
  from gather_pixels_keeps_columns [of 0 xs rng_seed props residuals count] a c
  have c1: "residuals1 \<noteq> []" by auto
  have "has_sample (push_back_all pv props1, push_back_all res residuals1, count1 + 1)"
    using c1 r
    by (auto simp: has_sample_def push_back_all_first dest: arg_cong [of _ _ length]
        simp: push_back_all_length)
  then have "has_sample (gather_pixels 0 ys
      (snd (use_sample 0 ((rng_next ^^ 3464599878) rng_seed)))
      (push_back_all pv props1, push_back_all res residuals1, count1 + 1))"
    by (rule gather_pixels_keeps_sample)
  then show ?thesis
    using use_sample_after_jump by (simp add: gather_pixels_append k a)
qed

text \<open>
  Claim C8. The claim does not hold for a channel of more than 3464599878 pixels. With
  \<open>nb_repeats = 0\<close> the threshold is 0, and \<open>use_sample\<close> accepts a pixel when the
  upper 32 bits of \<open>s[0] + s[1]\<close> are at most the threshold, that is when they are 0.
  After 3464599878 steps from the seed the generator is in the state
  \<open>(0xaebe91048381046f, 0x51416efb9c5206ea)\<close>, whose sum is 533924697 modulo
  \<open>2^64\<close>: the pixel with that index is appended to \<open>props\<close> and \<open>residuals\<close>.
  For the channel of 65536 by 52866 pixels GatherTreeData returns with a sample in
  the residuals of the first predictor.
\<close>

theorem sample_taken_with_fraction_zero:
  "\<exists>props residuals count.
     GatherTreeData wide_channel_pixels 65536 52866 2 1 (0, 1) [] [] 0 =
       Some (props, residuals, count) \<and>
     residuals ! 0 \<noteq> []"
proof -
  have split: "wide_channel_pixels =
      replicate 3464599878 ([7], [0, 0]) @ ([7], [0, 0]) # replicate 26297 ([7], [0, 0])"
    unfolding wide_channel_pixels_def
    by (simp only: replicate_add [symmetric] replicate_Suc [symmetric]
        replicate_app_Cons_same) simp
  have "has_sample (gather_pixels 0 wide_channel_pixels rng_seed ([[], []], [[]], 0))"
    unfolding split by (rule sample_at_hit) simp_all
  then show ?thesis
    by (cases "gather_pixels 0 wide_channel_pixels rng_seed ([[], []], [[]], 0)")
       (simp add: GatherTreeData_def sample_threshold_zero resize_columns_def has_sample_def
          numeral_2_eq_2)
qed

end
